theory Spec2Isabelle
  imports Complex_Main "HOL-Library.List_Lexorder" "HOL-Library.Char_ord"
begin

section \<open>Bond-Builder Arena: the simulation engine\<close>

text \<open>
  A shallow embedding of the simulation core of the Arena component: the entity
  collections (\<open>atomsRef\<close>, \<open>bondsRef\<close>), the undo history, the drag session, the
  spawner, the force integrator, the bond attempt of the game loop, the stability
  detector \<open>checkMolecules\<close> and the pointer handlers.

  Conventions of the model.
  \<^item> JavaScript numbers are IEEE 754 doubles, a subset of \<^typ>\<open>real\<close>. Where the spawner
    and the fling of a released atom compute with them, every operation is rounded as
    the machine rounds it (\<open>round_double\<close>). The motion of a frame (the integrator, the
    forces, the recoil of a rejected bond with its calls of \<open>Math.atan2\<close>, \<open>Math.cos\<close>
    and \<open>Math.sin\<close>) is idealised over the reals. \<open>currentBonds\<close> and \<open>valency\<close> hold
    integers and are \<^typ>\<open>int\<close>.
  \<^item> The mutable refs of the component are the fields of the record \<open>arena\<close>; every
    handler takes the record and returns the updated one.
  \<^item> \<open>Math.random()\<close>, \<open>uuid()\<close>, the clock and the canvas geometry are inputs
    of the operation that consumes them.
  \<^item> The callbacks \<open>onScoreUpdate\<close>, \<open>onError\<close> and the call of
    \<open>identifyMoleculeWithGemini\<close> are recorded, in order, in the field \<open>emitted\<close>.
  \<^item> Particles, sounds and canvas drawing are presentation only: nothing the engine
    reads depends on them, and they are left out.
\<close>

subsection \<open>types.ts and constants.ts\<close>

datatype AtomType = Atom_H | Atom_O | Atom_N | Atom_C | Atom_Cl | Atom_S | Atom_P

record AtomDef =
  symbol :: AtomType
  valency :: int
  color :: string
  radius :: real
  mass :: real

record AtomEntity =
  a_id :: string
  a_type :: AtomType
  a_x :: real
  a_y :: real
  a_vx :: real
  a_vy :: real
  currentBonds :: int
  bondedAtomIds :: "string list"
  isDragging :: bool
  fxScale :: real

record BondEntity =
  b_id :: string
  atom1Id :: string
  atom2Id :: string
  stress :: real

fun ATOM_DEFS :: "AtomType \<Rightarrow> AtomDef" where
  "ATOM_DEFS Atom_H = \<lparr>symbol = Atom_H, valency = 1, color = ''#06B6D4'', radius = 20, mass = 1\<rparr>"
| "ATOM_DEFS Atom_O = \<lparr>symbol = Atom_O, valency = 2, color = ''#EF4444'', radius = 28, mass = 16\<rparr>"
| "ATOM_DEFS Atom_N = \<lparr>symbol = Atom_N, valency = 3, color = ''#3B82F6'', radius = 29, mass = 14\<rparr>"
| "ATOM_DEFS Atom_C = \<lparr>symbol = Atom_C, valency = 4, color = ''#1F2937'', radius = 30, mass = 12\<rparr>"
| "ATOM_DEFS Atom_Cl = \<lparr>symbol = Atom_Cl, valency = 1, color = ''#10B981'', radius = 27, mass = 35\<rparr>"
| "ATOM_DEFS Atom_S = \<lparr>symbol = Atom_S, valency = 2, color = ''#EAB308'', radius = 29, mass = 32\<rparr>"
| "ATOM_DEFS Atom_P = \<lparr>symbol = Atom_P, valency = 3, color = ''#F97316'', radius = 30, mass = 31\<rparr>"

definition BOND_DISTANCE :: real where "BOND_DISTANCE = 70"
definition BOND_STRENGTH :: real where "BOND_STRENGTH = 0.1"
definition WORLD_FRICTION :: real where "WORLD_FRICTION = 0.98"
definition REPULSION_FORCE :: real where "REPULSION_FORCE = 0.5"

subsection \<open>Numbers\<close>

text \<open>
  The result of an arithmetic operation on doubles is the exact result rounded to the
  nearest double, ties to the even significand. A double has a significand of 53 bits:
  the doubles between two neighbouring powers of two, from \<open>2 ^ e\<close> on, are \<open>2 ^ (e - 52)\<close>
  apart (\<open>binade\<close> is that \<open>e\<close>, \<open>ulp\<close> the distance), and those below \<open>2 ^ (- 1022)\<close> are
  \<open>2 ^ (- 1074)\<close> apart. Overflow to \<open>Infinity\<close>, at magnitudes from \<open>2 ^ 1024\<close> on, is
  not modelled; no operation modelled here can reach it.
\<close>

definition round_half_even :: "real \<Rightarrow> int" where
  "round_half_even y =
     (let f = \<lfloor>y\<rfloor>; d = y - of_int f
      in if d < 1/2 then f else if d > 1/2 then f + 1 else if even f then f else f + 1)"

definition binade :: "real \<Rightarrow> int" where
  "binade x = max \<lfloor>log 2 \<bar>x\<bar>\<rfloor> (- 1022)"

definition ulp :: "real \<Rightarrow> real" where
  "ulp x = 2 powr (of_int (binade x) - 52)"

definition round_double :: "real \<Rightarrow> real" where
  "round_double x = (if x = 0 then 0 else ulp x * of_int (round_half_even (x / ulp x)))"

text \<open>The reals that are doubles are those that rounding leaves as they are.\<close>

definition double :: "real \<Rightarrow> bool" where
  "double x \<longleftrightarrow> round_double x = x"

text \<open>\<open>(Math.random() - 0.5) * 2\<close>, for the draw \<open>r\<close>.\<close>

definition centred :: "real \<Rightarrow> real" where
  "centred r = round_double (round_double (r - 0.5) * 2)"

subsection \<open>The state of the Arena component\<close>

datatype out_event =
    ScoreUpdate int
  | IdentifyMolecule "(AtomType \<times> int) list"
  | ErrorMsg string

record arena =
  atoms :: "AtomEntity list"
  bonds :: "BondEntity list"
  bondHistory :: "string list"
  lastSpawn :: real
  draggedAtom :: "string option"
  mouse :: "real \<times> real"
  dragSessionBondedPairs :: "string set"
  emitted :: "out_event list"

text \<open>The refs as \<open>useRef\<close> initialises them when the component mounts.\<close>

definition initial :: arena where
  "initial = \<lparr>atoms = [], bonds = [], bondHistory = [], lastSpawn = 0,
     draggedAtom = None, mouse = (0, 0), dragSessionBondedPairs = {}, emitted = []\<rparr>"

subsection \<open>spawnAtom and the spawning step of update\<close>

text \<open>
  The values \<open>spawnAtom\<close> draws, in the order of its calls: the container rectangle
  (\<open>None\<close> when \<open>containerRef.current\<close> is null), the draw that picks the type, the
  draw that picks the axis, the two draws of the position, the identifier returned by
  \<open>uuid()\<close> and the two draws of the velocity.
\<close>

record spawn_draws =
  container :: "(real \<times> real) option"
  r_type :: real
  r_axis :: real
  r_first :: real
  r_second :: real
  fresh_id :: string
  r_vx :: real
  r_vy :: real

definition spawn_types :: "AtomType list" where
  "spawn_types = [Atom_H, Atom_H, Atom_H, Atom_O, Atom_O, Atom_C, Atom_C,
     Atom_N, Atom_Cl, Atom_S, Atom_P]"

text \<open>\<open>Math.random()\<close> returns a double in \<open>[0, 1)\<close>.\<close>

definition unit_draw :: "real \<Rightarrow> bool" where
  "unit_draw r \<longleftrightarrow> double r \<and> 0 \<le> r \<and> r < 1"

definition unit_draws :: "spawn_draws \<Rightarrow> bool" where
  "unit_draws d \<longleftrightarrow> unit_draw (r_type d) \<and> unit_draw (r_axis d) \<and> unit_draw (r_first d)
     \<and> unit_draw (r_second d) \<and> unit_draw (r_vx d) \<and> unit_draw (r_vy d)"

definition spawn_position :: "spawn_draws \<Rightarrow> real \<Rightarrow> real \<Rightarrow> AtomDef \<Rightarrow> real \<times> real" where
  "spawn_position d width height def =
     (if r_axis d > 0.5
      then (if r_first d > 0.5 then - radius def else round_double (width + radius def),
            round_double (r_second d * height))
      else (round_double (r_first d * width),
            if r_second d > 0.5 then - radius def else round_double (height + radius def)))"

definition new_atom :: "spawn_draws \<Rightarrow> real \<Rightarrow> real \<Rightarrow> AtomType \<Rightarrow> AtomEntity" where
  "new_atom d width height ty =
     (let def = ATOM_DEFS ty; (x, y) = spawn_position d width height def
      in \<lparr>a_id = fresh_id d, a_type = ty, a_x = x, a_y = y,
           a_vx = centred (r_vx d), a_vy = centred (r_vy d),
           currentBonds = 0, bondedAtomIds = [], isDragging = False, fxScale = 0\<rparr>)"

text \<open>
  \<open>types[Math.floor(Math.random() * types.length)]\<close>: the floor of the rounded product.
  With a draw in \<open>[0, 1)\<close> the index is below \<open>types.length\<close>. The model leaves the
  store unchanged for an index out of range, which no draw of \<open>Math.random()\<close> produces.
\<close>

definition spawnAtom :: "spawn_draws \<Rightarrow> AtomEntity list \<Rightarrow> AtomEntity list" where
  "spawnAtom d as =
     (case container d of
        None \<Rightarrow> as
      | Some (width, height) \<Rightarrow>
          (let k = nat \<lfloor>round_double (r_type d * real (length spawn_types))\<rfloor>
           in if k < length spawn_types
              then as @ [new_atom d width height (spawn_types ! k)]
              else as))"

record tick_input =
  time :: real
  canvas_width :: real
  canvas_height :: real
  draws :: spawn_draws
  bond_uuid :: string

text \<open>The guard of step 1 of \<open>update\<close>: \<open>time - lastSpawnRef.current > 1500 && atomsRef.current.length < 18\<close>.\<close>

definition spawn_due :: "tick_input \<Rightarrow> arena \<Rightarrow> bool" where
  "spawn_due i s \<longleftrightarrow> round_double (time i - lastSpawn s) > 1500 \<and> length (atoms s) < 18"

definition spawning :: "tick_input \<Rightarrow> arena \<Rightarrow> arena" where
  "spawning i s =
     (if spawn_due i s
      then s\<lparr>atoms := spawnAtom (draws i) (atoms s), lastSpawn := time i\<rparr>
      else s)"

subsection \<open>Lookups\<close>

text \<open>
  \<open>Array.prototype.findIndex\<close>, with \<open>None\<close> for \<open>-1\<close>. Where the source keeps the
  object that \<open>find\<close> returns and later assigns to its fields, the model keeps the
  position of that object in the array.
\<close>

fun findIndex :: "('a \<Rightarrow> bool) \<Rightarrow> 'a list \<Rightarrow> nat option" where
  "findIndex p [] = None"
| "findIndex p (x # xs) = (if p x then Some 0 else map_option Suc (findIndex p xs))"

definition isBonded :: "BondEntity list \<Rightarrow> string \<Rightarrow> string \<Rightarrow> bool" where
  "isBonded bs a b =
     list_ex (\<lambda>bond. (atom1Id bond = a \<and> atom2Id bond = b) \<or> (atom1Id bond = b \<and> atom2Id bond = a)) bs"

subsection \<open>The physics steps of update\<close>

text \<open>
  Step 2 of \<open>update\<close>, for one atom: a dragged atom follows the pointer, any other atom
  bounces off the walls and is slowed by friction; then the velocity is applied and
  the spawn animation advances.
\<close>

definition integrate :: "real \<times> real \<Rightarrow> real \<Rightarrow> real \<Rightarrow> AtomEntity \<Rightarrow> AtomEntity" where
  "integrate m width height atom =
     (let def = ATOM_DEFS (a_type atom);
          a1 = (if isDragging atom
                then atom\<lparr>a_vx := (fst m - a_x atom) * 0.2, a_vy := (snd m - a_y atom) * 0.2\<rparr>
                else
                  (let b1 = (if a_x atom < radius def
                             then atom\<lparr>a_x := radius def, a_vx := a_vx atom * (- 1)\<rparr> else atom);
                       b2 = (if a_x b1 > width - radius def
                             then b1\<lparr>a_x := width - radius def, a_vx := a_vx b1 * (- 1)\<rparr> else b1);
                       b3 = (if a_y b2 < radius def
                             then b2\<lparr>a_y := radius def, a_vy := a_vy b2 * (- 1)\<rparr> else b2);
                       b4 = (if a_y b3 > height - radius def
                             then b3\<lparr>a_y := height - radius def, a_vy := a_vy b3 * (- 1)\<rparr> else b3)
                   in b4\<lparr>a_vx := a_vx b4 * WORLD_FRICTION, a_vy := a_vy b4 * WORLD_FRICTION\<rparr>));
          a2 = a1\<lparr>a_x := a_x a1 + a_vx a1, a_y := a_y a1 + a_vy a1\<rparr>
      in if fxScale a2 < 1 then a2\<lparr>fxScale := fxScale a2 + 0.05\<rparr> else a2)"

text \<open>
  Step 3 of \<open>update\<close>, for the pair \<open>(a, b)\<close>: a spring between bonded atoms, a
  repulsion between unbonded atoms that overlap. Only velocities change. (Where two bonded
  atoms coincide the source divides zero by zero; the reals of the model give 0 there.)
\<close>

definition pairForce :: "BondEntity list \<Rightarrow> AtomEntity \<Rightarrow> AtomEntity \<Rightarrow> AtomEntity \<times> AtomEntity" where
  "pairForce bs a b =
     (let dx = a_x b - a_x a; dy = a_y b - a_y a; dist = sqrt (dx * dx + dy * dy)
      in if isBonded bs (a_id a) (a_id b)
         then
           (let offset = dist - BOND_DISTANCE; force = offset * BOND_STRENGTH;
                fx = (dx / dist) * force; fy = (dy / dist) * force
            in (if \<not> isDragging a
                then a\<lparr>a_vx := a_vx a + fx / mass (ATOM_DEFS (a_type a)),
                       a_vy := a_vy a + fy / mass (ATOM_DEFS (a_type a))\<rparr> else a,
                if \<not> isDragging b
                then b\<lparr>a_vx := a_vx b - fx / mass (ATOM_DEFS (a_type b)),
                       a_vy := a_vy b - fy / mass (ATOM_DEFS (a_type b))\<rparr> else b))
         else
           (let minDist = radius (ATOM_DEFS (a_type a)) + radius (ATOM_DEFS (a_type b)) + 10
            in if dist < minDist \<and> dist > 0
               then
                 (let force = (minDist - dist) * REPULSION_FORCE;
                      fx = (dx / dist) * force; fy = (dy / dist) * force
                  in (if \<not> isDragging a then a\<lparr>a_vx := a_vx a - fx, a_vy := a_vy a - fy\<rparr> else a,
                      if \<not> isDragging b then b\<lparr>a_vx := a_vx b + fx, a_vy := a_vy b + fy\<rparr> else b))
               else (a, b)))"

definition forcesInner :: "BondEntity list \<Rightarrow> nat \<Rightarrow> AtomEntity list \<Rightarrow> AtomEntity list" where
  "forcesInner bs i as =
     fold (\<lambda>j cur. (case pairForce bs (cur ! i) (cur ! j) of (a, b) \<Rightarrow> cur[i := a, j := b]))
       [Suc i ..< length as] as"

definition forces :: "BondEntity list \<Rightarrow> AtomEntity list \<Rightarrow> AtomEntity list" where
  "forces bs as = fold (forcesInner bs) [0 ..< length as] as"

definition physics :: "tick_input \<Rightarrow> arena \<Rightarrow> arena" where
  "physics i s =
     s\<lparr>atoms := forces (bonds s)
         (map (integrate (mouse s) (canvas_width i) (canvas_height i)) (atoms s))\<rparr>"

text \<open>Step 6 of \<open>update\<close> changes one field of the store: the bond-snap scale decays.\<close>

definition render :: "arena \<Rightarrow> arena" where
  "render s =
     s\<lparr>atoms := map (\<lambda>atom. if fxScale atom > 1.1 then atom\<lparr>fxScale := fxScale atom - 0.02\<rparr> else atom)
         (atoms s)\<rparr>"

subsection \<open>checkMolecules\<close>

text \<open>
  \<open>composition[a.type] = (composition[a.type] || 0) + 1\<close> on an object whose keys keep
  their insertion order.
\<close>

fun addType :: "AtomType \<Rightarrow> (AtomType \<times> int) list \<Rightarrow> (AtomType \<times> int) list" where
  "addType t [] = [(t, 1)]"
| "addType t ((k, v) # kvs) = (if k = t then (k, v + 1) # kvs else (k, v) # addType t kvs)"

definition composition :: "AtomEntity list \<Rightarrow> (AtomType \<times> int) list" where
  "composition component = fold (\<lambda>a. addType (a_type a)) component []"

definition neighborIds :: "BondEntity list \<Rightarrow> string \<Rightarrow> string list" where
  "neighborIds bs cid =
     map (\<lambda>b. if atom1Id b = cid then atom2Id b else atom1Id b)
       (filter (\<lambda>b. atom1Id b = cid \<or> atom2Id b = cid) bs)"

text \<open>The loop \<open>for (const nid of neighbors)\<close>, on the queue and the visited set.\<close>

fun visitNeighbors ::
  "AtomEntity list \<Rightarrow> string list \<Rightarrow> AtomEntity list \<times> string set \<Rightarrow> AtomEntity list \<times> string set" where
  "visitNeighbors as [] qv = qv"
| "visitNeighbors as (nid # nids) (queue, visited) =
     (case find (\<lambda>a. a_id a = nid) as of
        Some nAtom \<Rightarrow>
          if a_id nAtom \<notin> visited
          then visitNeighbors as nids (queue @ [nAtom], insert (a_id nAtom) visited)
          else visitNeighbors as nids (queue, visited)
      | None \<Rightarrow> visitNeighbors as nids (queue, visited))"

definition unvisited :: "AtomEntity list \<Rightarrow> string set \<Rightarrow> nat" where
  "unvisited as visited = length (filter (\<lambda>a. a_id a \<notin> visited) as)"

lemma unvisited_insert:
  "find (\<lambda>a. a_id a = nid) as = Some nAtom \<Longrightarrow> a_id nAtom \<notin> visited \<Longrightarrow>
     unvisited as (insert (a_id nAtom) visited) < unvisited as visited"
proof (induction as)
  case Nil
  then show ?case by simp
next
  case (Cons a as)
  have le: "unvisited as (insert (a_id nAtom) visited) \<le> unvisited as visited"
    unfolding unvisited_def by (induction as) auto
  show ?case
  proof (cases "a_id a = nid")
    case True
    with Cons.prems have "nAtom = a" by simp
    with Cons.prems le show ?thesis by (simp add: unvisited_def)
  next
    case False
    with Cons show ?thesis by (auto simp: unvisited_def)
  qed
qed

lemma visitNeighbors_measure:
  "visitNeighbors as nids (queue, visited) = (queue', visited') \<Longrightarrow>
     length queue' + 2 * unvisited as visited' \<le> length queue + 2 * unvisited as visited"
proof (induction nids arbitrary: queue visited)
  case Nil
  then show ?case by simp
next
  case (Cons nid nids)
  show ?case
  proof (cases "find (\<lambda>a. a_id a = nid) as")
    case None
    with Cons show ?thesis by simp
  next
    case (Some nAtom)
    show ?thesis
    proof (cases "a_id nAtom \<in> visited")
      case True
      with Some Cons show ?thesis by simp
    next
      case False
      with Some Cons.prems
      have "visitNeighbors as nids (queue @ [nAtom], insert (a_id nAtom) visited) = (queue', visited')"
        by simp
      from Cons.IH [OF this] unvisited_insert [OF Some False] show ?thesis by simp
    qed
  qed
qed

text \<open>
  The loop \<open>while (queue.length > 0)\<close>: \<open>queue.shift()\<close> takes the head, the atom joins
  the component, \<open>isStable\<close> falls when it has a free valency, and its unvisited
  neighbours are queued.
\<close>

function bfs ::
  "AtomEntity list \<Rightarrow> BondEntity list \<Rightarrow> AtomEntity list \<Rightarrow> string set \<Rightarrow> AtomEntity list \<Rightarrow> bool
     \<Rightarrow> AtomEntity list \<times> string set \<times> bool" where
  "bfs as bs [] visited component isStable = (component, visited, isStable)"
| "bfs as bs (current # queue) visited component isStable =
     (let isStable' = (if currentBonds current \<noteq> valency (ATOM_DEFS (a_type current))
                       then False else isStable);
          qv = visitNeighbors as (neighborIds bs (a_id current)) (queue, visited)
      in bfs as bs (fst qv) (snd qv) (component @ [current]) isStable')"
  by pat_completeness auto
termination
proof (relation "measure (\<lambda>(as, bs, queue, visited, component, isStable).
                   length queue + 2 * unvisited as visited)")
  show "wf (measure (\<lambda>(as, bs, queue, visited, component, isStable).
                   length queue + 2 * unvisited as visited))"
    by simp
next
  fix as :: "AtomEntity list" and bs :: "BondEntity list" and current :: AtomEntity
    and queue :: "AtomEntity list" and visited :: "string set"
    and component :: "AtomEntity list" and isStable x :: bool
    and xa :: "AtomEntity list \<times> string set"
  assume "xa = visitNeighbors as (neighborIds bs (a_id current)) (queue, visited)"
  then have "visitNeighbors as (neighborIds bs (a_id current)) (queue, visited) = (fst xa, snd xa)"
    by simp
  from visitNeighbors_measure [OF this]
  show "((as, bs, fst xa, snd xa, component @ [current], x), as, bs, current # queue, visited,
          component, isStable)
        \<in> measure (\<lambda>(as, bs, queue, visited, component, isStable).
                   length queue + 2 * unvisited as visited)"
    by simp
qed

text \<open>
  The loop \<open>for (const atom of atomsRef.current)\<close> with its three accumulators: the
  visited set, \<open>toRemoveAtoms\<close> and the calls made to the collaborators.
\<close>

fun scanAtoms ::
  "AtomEntity list \<Rightarrow> BondEntity list \<Rightarrow> AtomEntity list \<Rightarrow> string set \<times> string list \<times> out_event list
     \<Rightarrow> string set \<times> string list \<times> out_event list" where
  "scanAtoms as bs [] acc = acc"
| "scanAtoms as bs (atom # rest) (visited, toRemoveAtoms, out) =
     (if a_id atom \<in> visited then scanAtoms as bs rest (visited, toRemoveAtoms, out)
      else
        (case bfs as bs [atom] (insert (a_id atom) visited) [] True of
           (component, visited', isStable) \<Rightarrow>
             if isStable \<and> length component > 1
             then scanAtoms as bs rest
                    (visited', toRemoveAtoms @ map a_id component,
                     out @ [ScoreUpdate (int (length component) * 100),
                            IdentifyMolecule (composition component)])
             else scanAtoms as bs rest (visited', toRemoveAtoms, out)))"

text \<open>
  The atoms of a stable component also get \<open>fxScale = 1.5\<close>; every atom carrying one of
  their identifiers is filtered out of the store below, so the assignment is not modelled.
  \<open>draggedAtomRef.current &&\<close> is false for \<open>null\<close> and for the empty string.
\<close>

definition checkMolecules :: "arena \<Rightarrow> arena" where
  "checkMolecules s =
     (case scanAtoms (atoms s) (bonds s) (atoms s) ({}, [], []) of
        (visited, toRemoveAtoms, out) \<Rightarrow>
          (let s1 = s\<lparr>emitted := emitted s @ out\<rparr>
           in if length toRemoveAtoms > 0
              then s1\<lparr>atoms := filter (\<lambda>a. a_id a \<notin> set toRemoveAtoms) (atoms s),
                      bonds := filter (\<lambda>b. atom1Id b \<notin> set toRemoveAtoms
                                          \<and> atom2Id b \<notin> set toRemoveAtoms) (bonds s),
                      draggedAtom := (case draggedAtom s of
                                        None \<Rightarrow> None
                                      | Some d \<Rightarrow> if d \<noteq> [] \<and> d \<in> set toRemoveAtoms
                                                  then None else Some d)\<rparr>
              else s1))"

subsection \<open>The bond attempt of update\<close>

text \<open>
  \<open>[dragger.id, target.id].sort().join('-')\<close>: the default sort orders two strings by
  their code units, which is the lexicographic order of \<^typ>\<open>string\<close>.
\<close>

definition pairKey :: "string \<Rightarrow> string \<Rightarrow> string" where
  "pairKey a b = (if b < a then b @ ''-'' @ a else a @ ''-'' @ b)"

text \<open>The predicate of \<open>atomsRef.current.find(target => ...)\<close> in step 4.\<close>

definition bondable :: "arena \<Rightarrow> AtomEntity \<Rightarrow> AtomEntity \<Rightarrow> bool" where
  "bondable s dragger target =
     (if a_id target = a_id dragger then False
      else if currentBonds target \<ge> valency (ATOM_DEFS (a_type target)) then False
      else
        (let dx = a_x target - a_x dragger; dy = a_y target - a_y dragger;
             dist = sqrt (dx * dx + dy * dy);
             bondedInThisSession = (pairKey (a_id dragger) (a_id target) \<in> dragSessionBondedPairs s)
         in dist < BOND_DISTANCE + 10 \<and> \<not> bondedInThisSession))"

text \<open>
  The positions of the dragger and of the neighbour the bond attempt selects, if it
  selects one. \<open>if (draggedAtomRef.current)\<close> is false for \<open>null\<close> and for the empty
  string.
\<close>

definition bondCandidate :: "arena \<Rightarrow> (nat \<times> nat) option" where
  "bondCandidate s =
     (case draggedAtom s of
        None \<Rightarrow> None
      | Some d \<Rightarrow>
          if d = [] then None
          else
            (case findIndex (\<lambda>a. a_id a = d) (atoms s) of
               None \<Rightarrow> None
             | Some i \<Rightarrow>
                 (let dragger = atoms s ! i
                  in if currentBonds dragger < valency (ATOM_DEFS (a_type dragger))
                     then map_option (Pair i) (findIndex (bondable s dragger) (atoms s))
                     else None)))"

text \<open>The body of \<open>if (neighbor)\<close> up to the call of \<open>checkMolecules\<close>.\<close>

definition createBond :: "string \<Rightarrow> nat \<Rightarrow> nat \<Rightarrow> arena \<Rightarrow> arena" where
  "createBond bondId i j s =
     (let dragger = atoms s ! i; neighbor = atoms s ! j
      in s\<lparr>dragSessionBondedPairs :=
              insert (pairKey (a_id dragger) (a_id neighbor)) (dragSessionBondedPairs s),
            bonds := bonds s @ [\<lparr>b_id = bondId, atom1Id = a_id dragger,
                                 atom2Id = a_id neighbor, stress = 0\<rparr>],
            bondHistory := bondHistory s @ [bondId],
            atoms := (atoms s)[i := dragger\<lparr>currentBonds := currentBonds dragger + 1\<rparr>,
                               j := neighbor\<lparr>currentBonds := currentBonds neighbor + 1\<rparr>]\<rparr>)"

definition bondAttempt :: "string \<Rightarrow> arena \<Rightarrow> arena" where
  "bondAttempt bondId s =
     (case bondCandidate s of
        None \<Rightarrow> s
      | Some (i, j) \<Rightarrow> checkMolecules (createBond bondId i j s))"

text \<open>
  One run of \<open>update\<close> past its guards (the game is active, the canvas and its context
  exist): spawning and physics (steps 1 to 3), then the bond attempt, then rendering.
\<close>

definition beforeBond :: "tick_input \<Rightarrow> arena \<Rightarrow> arena" where
  "beforeBond i s = physics i (spawning i s)"

definition update :: "tick_input \<Rightarrow> arena \<Rightarrow> arena" where
  "update i s = render (bondAttempt (bond_uuid i) (beforeBond i s))"

subsection \<open>undo\<close>

text \<open>\<open>a.currentBonds = Math.max(0, a.currentBonds - 1)\<close> on the atom \<open>find\<close> returns, if any.\<close>

definition decrementBonds :: "string \<Rightarrow> AtomEntity list \<Rightarrow> AtomEntity list" where
  "decrementBonds aid as =
     (case findIndex (\<lambda>a. a_id a = aid) as of
        None \<Rightarrow> as
      | Some k \<Rightarrow> as[k := (as ! k)\<lparr>currentBonds := max 0 (currentBonds (as ! k) - 1)\<rparr>])"

text \<open>
  The history grows at its end and \<open>pop()\<close> takes the last element.
  \<open>bondIndex !== -1 && lastBondId\<close> is false for an identifier that is the empty
  string.
\<close>

text \<open>The body of \<open>if (bondIndex !== -1 && lastBondId)\<close>: the bond at \<open>bondIndex\<close> is undone.\<close>

definition undoBond :: "nat \<Rightarrow> arena \<Rightarrow> arena" where
  "undoBond bondIndex s =
     (let bond = bonds s ! bondIndex
      in s\<lparr>atoms := decrementBonds (atom2Id bond) (decrementBonds (atom1Id bond) (atoms s)),
            bonds := take bondIndex (bonds s) @ drop (Suc bondIndex) (bonds s)\<rparr>)"

function undo :: "arena \<Rightarrow> arena" where
  "undo s =
     (if length (bondHistory s) > 0
      then
        (let lastBondId = last (bondHistory s);
             s1 = s\<lparr>bondHistory := butlast (bondHistory s)\<rparr>
         in case findIndex (\<lambda>b. b_id b = lastBondId) (bonds s1) of
              Some bondIndex \<Rightarrow> if lastBondId \<noteq> [] then undoBond bondIndex s1 else undo s1
            | None \<Rightarrow> undo s1)
      else s)"
  by pat_completeness auto
termination
  by (relation "measure (\<lambda>s. length (bondHistory s))") auto

declare undo.simps [simp del]

subsection \<open>Pointer handlers and reset\<close>

definition hit :: "real \<Rightarrow> real \<Rightarrow> AtomEntity \<Rightarrow> bool" where
  "hit x y a =
     (let dx = a_x a - x; dy = a_y a - y
      in dx * dx + dy * dy < (radius (ATOM_DEFS (a_type a)) + 10)\<^sup>2)"

text \<open>\<open>x\<close> and \<open>y\<close> are the pointer coordinates relative to the canvas.\<close>

definition handlePointerDown :: "real \<Rightarrow> real \<Rightarrow> arena \<Rightarrow> arena" where
  "handlePointerDown x y s =
     (let s1 = s\<lparr>mouse := (x, y)\<rparr>
      in case findIndex (hit x y) (atoms s1) of
           None \<Rightarrow> s1
         | Some k \<Rightarrow>
             (let clicked = atoms s1 ! k
              in s1\<lparr>draggedAtom := Some (a_id clicked),
                    atoms := (atoms s1)[k := clicked\<lparr>isDragging := True, a_vx := 0, a_vy := 0\<rparr>],
                    dragSessionBondedPairs := {}\<rparr>))"

definition handlePointerMove :: "real \<Rightarrow> real \<Rightarrow> arena \<Rightarrow> arena" where
  "handlePointerMove x y s = s\<lparr>mouse := (x, y)\<rparr>"

text \<open>\<open>Math.atan2(y, x)\<close> on the reals.\<close>

definition atan2 :: "real \<Rightarrow> real \<Rightarrow> real" where
  "atan2 y x =
     (if x > 0 then arctan (y / x)
      else if x < 0 \<and> y \<ge> 0 then arctan (y / x) + pi
      else if x < 0 \<and> y < 0 then arctan (y / x) - pi
      else if y > 0 then pi / 2
      else if y < 0 then - (pi / 2)
      else 0)"

text \<open>The text a template literal gives for an atom type and for a whole number.\<close>

fun symbol_text :: "AtomType \<Rightarrow> string" where
  "symbol_text Atom_H = ''H''"
| "symbol_text Atom_O = ''O''"
| "symbol_text Atom_N = ''N''"
| "symbol_text Atom_C = ''C''"
| "symbol_text Atom_Cl = ''Cl''"
| "symbol_text Atom_S = ''S''"
| "symbol_text Atom_P = ''P''"

definition digit_char :: "nat \<Rightarrow> char" where
  "digit_char n = ''0123456789'' ! (n mod 10)"

function show_nat :: "nat \<Rightarrow> string" where
  "show_nat n = (if n < 10 then [digit_char n] else show_nat (n div 10) @ [digit_char n])"
  by pat_completeness auto
termination
  by (relation "measure id") auto

declare show_nat.simps [simp del]

definition show_int :: "int \<Rightarrow> string" where
  "show_int v = (if v < 0 then ''-'' @ show_nat (nat (- v)) else show_nat (nat v))"

definition near :: "AtomEntity \<Rightarrow> AtomEntity \<Rightarrow> bool" where
  "near atom target =
     (if a_id target = a_id atom then False
      else
        (let dx = a_x target - a_x atom; dy = a_y target - a_y atom;
             dist = sqrt (dx * dx + dy * dy)
         in dist < BOND_DISTANCE + 20))"

definition hint :: "AtomEntity \<Rightarrow> AtomEntity \<Rightarrow> string" where
  "hint atom nearby =
     (let targetDef = ATOM_DEFS (a_type nearby); atomDef = ATOM_DEFS (a_type atom)
      in if valency targetDef = currentBonds nearby
         then symbol_text (symbol targetDef) @ '' is full! (Max '' @ show_int (valency targetDef) @ '')''
         else if valency atomDef = currentBonds atom
         then symbol_text (symbol atomDef) @ '' is full!''
         else ''Bond blocked or invalid!'')"

text \<open>
  The body of \<open>if (atom)\<close> in \<open>handlePointerUp\<close>, for the dragged atom at position \<open>i\<close>;
  \<open>rx\<close> and \<open>ry\<close> are the two draws of \<open>Math.random()\<close> the fling would use.
\<close>

definition release :: "real \<Rightarrow> real \<Rightarrow> nat \<Rightarrow> arena \<Rightarrow> arena" where
  "release rx ry i s =
     (let atom = (atoms s ! i)\<lparr>isDragging := False\<rparr>;
          as1 = (atoms s)[i := atom]
      in case findIndex (near atom) as1 of
           None \<Rightarrow> s\<lparr>atoms := as1\<rparr>
         | Some n \<Rightarrow>
             (let nearby = as1 ! n
              in if \<not> isBonded (bonds s) (a_id atom) (a_id nearby)
                 then
                   (let dx = a_x atom - a_x nearby; dy = a_y atom - a_y nearby;
                        angle = atan2 dy dx
                    in s\<lparr>atoms := as1[i := atom\<lparr>a_vx := cos angle * 20, a_vy := sin angle * 20\<rparr>,
                                      n := nearby\<lparr>a_vx := - cos angle * 10, a_vy := - sin angle * 10\<rparr>],
                          emitted := emitted s @ [ErrorMsg (hint atom nearby)]\<rparr>)
                 else s\<lparr>atoms := as1[i := atom\<lparr>a_vx := centred rx, a_vy := centred ry\<rparr>]\<rparr>))"

definition handlePointerUp :: "real \<Rightarrow> real \<Rightarrow> arena \<Rightarrow> arena" where
  "handlePointerUp rx ry s =
     (case draggedAtom s of
        None \<Rightarrow> s
      | Some d \<Rightarrow>
          if d = [] then s
          else
            (case findIndex (\<lambda>a. a_id a = d) (atoms s) of
               None \<Rightarrow> s\<lparr>draggedAtom := None\<rparr>
             | Some i \<Rightarrow> (release rx ry i s)\<lparr>draggedAtom := None\<rparr>))"

text \<open>The effect that runs when \<open>gameActive\<close> is false.\<close>

definition reset :: "arena \<Rightarrow> arena" where
  "reset s = s\<lparr>atoms := [], bonds := [], bondHistory := [], dragSessionBondedPairs := {}\<rparr>"

subsection \<open>Runs of the engine\<close>

datatype event =
    Tick tick_input
  | PointerDown real real
  | PointerMove real real
  | PointerUp real real
  | Undo
  | Reset

fun step :: "arena \<Rightarrow> event \<Rightarrow> arena" where
  "step s (Tick i) = update i s"
| "step s (PointerDown x y) = handlePointerDown x y s"
| "step s (PointerMove x y) = handlePointerMove x y s"
| "step s (PointerUp rx ry) = handlePointerUp rx ry s"
| "step s Undo = undo s"
| "step s Reset = reset s"

fun run :: "arena \<Rightarrow> event list \<Rightarrow> arena" where
  "run s [] = s"
| "run s (e # es) = run (step s e) es"

text \<open>
  The one assumption on the environment: whenever a frame calls the spawner, \<open>uuid()\<close>
  gives the new atom an identifier that no atom of the store carries.
\<close>

fun admissible_event :: "arena \<Rightarrow> event \<Rightarrow> bool" where
  "admissible_event s (Tick i) =
     (spawn_due i s \<longrightarrow> fresh_id (draws i) \<notin> set (map a_id (atoms s)))"
| "admissible_event s e = True"

fun admissible :: "arena \<Rightarrow> event list \<Rightarrow> bool" where
  "admissible s [] = True"
| "admissible s (e # es) = (admissible_event s e \<and> admissible (step s e) es)"

subsection \<open>Where a spawned atom lies and where it heads\<close>

text \<open>
  The atom lies just outside an edge of the \<open>width \<times> height\<close> container: its centre is
  one radius beyond the left, right, top or bottom edge (the sum as the machine gives
  it), anywhere along that edge.
\<close>

definition outside_edge :: "real \<Rightarrow> real \<Rightarrow> AtomEntity \<Rightarrow> bool" where
  "outside_edge width height a =
     (let r = radius (ATOM_DEFS (a_type a))
      in ((a_x a = - r \<or> a_x a = round_double (width + r)) \<and> 0 \<le> a_y a \<and> a_y a \<le> height)
       \<or> ((a_y a = - r \<or> a_y a = round_double (height + r)) \<and> 0 \<le> a_x a \<and> a_x a \<le> width))"

text \<open>The velocity points into the arena: towards the inside across the edge the atom is beyond.\<close>

definition inward :: "real \<Rightarrow> real \<Rightarrow> AtomEntity \<Rightarrow> bool" where
  "inward width height a =
     ((a_x a < 0 \<longrightarrow> a_vx a > 0) \<and> (a_x a > width \<longrightarrow> a_vx a < 0)
      \<and> (a_y a < 0 \<longrightarrow> a_vy a > 0) \<and> (a_y a > height \<longrightarrow> a_vy a < 0))"

definition example_draws :: spawn_draws where
  "example_draws = \<lparr>container = Some (800, 600), r_type = 0, r_axis = 3/4, r_first = 3/4,
     r_second = 1/2, fresh_id = ''a1'', r_vx = 0, r_vy = 1/2\<rparr>"

definition example_tick :: tick_input where
  "example_tick = \<lparr>time = 2000, canvas_width = 800, canvas_height = 600,
     draws = example_draws, bond_uuid = ''b1''\<rparr>"

text \<open>
  A frame whose type draw, times 11, lies half a unit in the last place below 3: the
  product rounds to 3.
\<close>

definition tie_draws :: spawn_draws where
  "tie_draws = \<lparr>container = Some (800, 600), r_type = 1228254443828317 / 2 ^ 52, r_axis = 3/4,
     r_first = 3/4, r_second = 1/2, fresh_id = ''a2'', r_vx = 1/2, r_vy = 1/2\<rparr>"

definition tie_tick :: tick_input where
  "tie_tick = \<lparr>time = 2000, canvas_width = 800, canvas_height = 600,
     draws = tie_draws, bond_uuid = ''b1''\<rparr>"

subsection \<open>Vocabulary of the properties\<close>

text \<open>The fields of an atom that physics, rendering and the pointer never change.\<close>

definition core :: "AtomEntity \<Rightarrow> string \<times> AtomType \<times> int \<times> string list" where
  "core a = (a_id a, a_type a, currentBonds a, bondedAtomIds a)"

definition within_valency :: "AtomEntity list \<Rightarrow> bool" where
  "within_valency as \<longleftrightarrow>
     (\<forall>a \<in> set as. 0 \<le> currentBonds a \<and> currentBonds a \<le> valency (ATOM_DEFS (a_type a)))"

text \<open>What one scan of \<open>checkMolecules\<close> marks for removal and what it emits.\<close>

definition toRemove :: "arena \<Rightarrow> string list" where
  "toRemove s = fst (snd (scanAtoms (atoms s) (bonds s) (atoms s) ({}, [], [])))"

definition scanOut :: "arena \<Rightarrow> out_event list" where
  "scanOut s = snd (snd (scanAtoms (atoms s) (bonds s) (atoms s) ({}, [], [])))"

subsection \<open>A worked example: two oxygen atoms\<close>

definition spawn_oxygen :: "real \<Rightarrow> string \<Rightarrow> real \<Rightarrow> tick_input" where
  "spawn_oxygen t i ry = \<lparr>time = t, canvas_width = 1024, canvas_height = 1024,
     draws = \<lparr>container = Some (1024, 1024), r_type = 5/16, r_axis = 3/4, r_first = 3/4,
       r_second = ry, fresh_id = i, r_vx = 1/2, r_vy = 1/2\<rparr>, bond_uuid = ''unused''\<rparr>"

definition frame :: "real \<Rightarrow> string \<Rightarrow> tick_input" where
  "frame t b = \<lparr>time = t, canvas_width = 1024, canvas_height = 1024,
     draws = \<lparr>container = Some (1024, 1024), r_type = 0, r_axis = 0, r_first = 0,
       r_second = 0, fresh_id = ''unused'', r_vx = 0, r_vy = 0\<rparr>, bond_uuid = b\<rparr>"

definition two_oxygens :: "event list" where
  "two_oxygens = [Tick (spawn_oxygen 2000 ''o1'' (25/256)), Tick (spawn_oxygen 4000 ''o2'' (85/512))]"

definition oxygen :: "string \<Rightarrow> real \<Rightarrow> int \<Rightarrow> bool \<Rightarrow> real \<Rightarrow> AtomEntity" where
  "oxygen i y c d f = \<lparr>a_id = i, a_type = Atom_O, a_x = 28, a_y = y, a_vx = 0, a_vy = 0,
     currentBonds = c, bondedAtomIds = [], isDragging = d, fxScale = f\<rparr>"

definition pair_loose :: arena where
  "pair_loose = \<lparr>atoms = [oxygen ''o1'' 100 0 False (1/10), oxygen ''o2'' 170 0 False (1/20)],
     bonds = [], bondHistory = [], lastSpawn = 4000, draggedAtom = None, mouse = (0, 0),
     dragSessionBondedPairs = {}, emitted = []\<rparr>"

definition pair_held :: arena where
  "pair_held = \<lparr>atoms = [oxygen ''o1'' 100 0 True (1/10), oxygen ''o2'' 170 0 False (1/20)],
     bonds = [], bondHistory = [], lastSpawn = 4000, draggedAtom = Some ''o1'', mouse = (28, 100),
     dragSessionBondedPairs = {}, emitted = []\<rparr>"

definition pair_bonded :: arena where
  "pair_bonded = \<lparr>atoms = [oxygen ''o1'' 100 1 True (3/20), oxygen ''o2'' 170 1 False (1/10)],
     bonds = [\<lparr>b_id = ''b1'', atom1Id = ''o1'', atom2Id = ''o2'', stress = 0\<rparr>],
     bondHistory = [''b1''], lastSpawn = 4000, draggedAtom = Some ''o1'', mouse = (28, 100),
     dragSessionBondedPairs = {''o1-o2''}, emitted = []\<rparr>"

text \<open>
  The claim about \<open>bondedAtomIds\<close>: the list of every atom holds exactly the identifiers
  of the atoms a bond record connects it to.
\<close>

definition bonded_ids_consistent :: "arena \<Rightarrow> bool" where
  "bonded_ids_consistent s \<longleftrightarrow>
     (\<forall>a \<in> set (atoms s). \<forall>b \<in> set (atoms s).
        a_id b \<in> set (bondedAtomIds a) \<longleftrightarrow> isBonded (bonds s) (a_id a) (a_id b))"

definition ids_unset :: "AtomEntity list \<Rightarrow> bool" where
  "ids_unset as \<longleftrightarrow> (\<forall>a \<in> set as. bondedAtomIds a = [])"

definition pair_regrabbed :: arena where
  "pair_regrabbed = \<lparr>atoms = [oxygen ''o1'' 100 1 True (1/5), oxygen ''o2'' 170 1 False (3/20)],
     bonds = [\<lparr>b_id = ''b1'', atom1Id = ''o1'', atom2Id = ''o2'', stress = 0\<rparr>],
     bondHistory = [''b1''], lastSpawn = 4000, draggedAtom = Some ''o1'', mouse = (28, 100),
     dragSessionBondedPairs = {}, emitted = []\<rparr>"

definition pair_double :: arena where
  "pair_double = \<lparr>atoms = [oxygen ''o1'' 100 2 True (1/4), oxygen ''o2'' 170 2 False (1/5)],
     bonds = [\<lparr>b_id = ''b1'', atom1Id = ''o1'', atom2Id = ''o2'', stress = 0\<rparr>,
              \<lparr>b_id = ''b3'', atom1Id = ''o1'', atom2Id = ''o2'', stress = 0\<rparr>],
     bondHistory = [''b1'', ''b3''], lastSpawn = 4000, draggedAtom = Some ''o1'', mouse = (28, 100),
     dragSessionBondedPairs = {''o1-o2''}, emitted = []\<rparr>"

definition released :: "AtomEntity \<Rightarrow> AtomEntity" where
  "released a = a\<lparr>currentBonds := max 0 (currentBonds a - 1)\<rparr>"

definition pair_history :: arena where
  "pair_history = pair_bonded\<lparr>bondHistory := [''b0'', ''b1'', ''b9'']\<rparr>"

text \<open>
  The events that can occur within one drag gesture: ticks, pointer moves and undo
  requests, up to the release of the pointer.
\<close>

fun in_gesture :: "event \<Rightarrow> bool" where
  "in_gesture (Tick i) = True"
| "in_gesture (PointerMove x y) = True"
| "in_gesture (PointerUp rx ry) = True"
| "in_gesture Undo = True"
| "in_gesture (PointerDown x y) = False"
| "in_gesture Reset = False"

text \<open>The endpoints of the bond that an event creates, if it creates one.\<close>

fun bondCreated :: "arena \<Rightarrow> event \<Rightarrow> (string \<times> string) list" where
  "bondCreated s (Tick i) =
     (case bondCandidate (beforeBond i s) of
        None \<Rightarrow> []
      | Some (d, n) \<Rightarrow> [(a_id (atoms (beforeBond i s) ! d), a_id (atoms (beforeBond i s) ! n))])"
| "bondCreated s e = []"

fun bondsCreated :: "arena \<Rightarrow> event list \<Rightarrow> (string \<times> string) list" where
  "bondsCreated s [] = []"
| "bondsCreated s (e # es) = bondCreated s e @ bondsCreated (step s e) es"

definition joins :: "string \<Rightarrow> string \<Rightarrow> string \<times> string \<Rightarrow> bool" where
  "joins a b p \<longleftrightarrow> p = (a, b) \<or> p = (b, a)"

definition pair_still :: arena where
  "pair_still = pair_bonded\<lparr>atoms := [oxygen ''o1'' 100 1 True (1/5), oxygen ''o2'' 170 1 False (3/20)]\<rparr>"

definition pair_released :: arena where
  "pair_released = pair_bonded\<lparr>atoms := [oxygen ''o1'' 100 1 False (1/5), oxygen ''o2'' 170 1 False (3/20)],
     draggedAtom := None\<rparr>"

subsection \<open>The bond graph\<close>

text \<open>
  The bond graph: two identifiers are adjacent when a bond record joins them, in either
  order; the component of an identifier is everything reachable from it.
\<close>

definition adjacent :: "BondEntity list \<Rightarrow> (string \<times> string) set" where
  "adjacent bs =
     {(u, v). \<exists>b \<in> set bs. (atom1Id b = u \<and> atom2Id b = v) \<or> (atom1Id b = v \<and> atom2Id b = u)}"

definition component_of :: "BondEntity list \<Rightarrow> string \<Rightarrow> string set" where
  "component_of bs u = (adjacent bs)\<^sup>* `` {u}"

text \<open>Atom identifiers are unique and every bond joins two atoms of the store.\<close>

definition store_ok :: "AtomEntity list \<Rightarrow> BondEntity list \<Rightarrow> bool" where
  "store_ok as bs \<longleftrightarrow>
     distinct (map a_id as)
     \<and> (\<forall>b \<in> set bs. atom1Id b \<in> set (map a_id as) \<and> atom2Id b \<in> set (map a_id as))"

definition at_valency :: "AtomEntity \<Rightarrow> bool" where
  "at_valency a \<longleftrightarrow> currentBonds a = valency (ATOM_DEFS (a_type a))"

text \<open>A set of identifiers that no bond leaves.\<close>

definition bond_closed :: "BondEntity list \<Rightarrow> string set \<Rightarrow> bool" where
  "bond_closed bs V \<longleftrightarrow> (\<forall>u \<in> V. adjacent bs `` {u} \<subseteq> V)"

subsection \<open>The components of a scan\<close>

text \<open>
  The components one scan discovers, in order, each with its \<open>isStable\<close> flag: the same
  loop as \<open>scanAtoms\<close>, keeping the components instead of what is derived from them.
\<close>

fun components ::
  "AtomEntity list \<Rightarrow> BondEntity list \<Rightarrow> AtomEntity list \<Rightarrow> string set \<Rightarrow> (AtomEntity list \<times> bool) list" where
  "components as bs [] visited = []"
| "components as bs (atom # rest) visited =
     (if a_id atom \<in> visited then components as bs rest visited
      else
        (case bfs as bs [atom] (insert (a_id atom) visited) [] True of
           (component, visited', isStable) \<Rightarrow> (component, isStable) # components as bs rest visited'))"

definition reported :: "AtomEntity list \<times> bool \<Rightarrow> bool" where
  "reported c \<longleftrightarrow> snd c \<and> length (fst c) > 1"

definition announce :: "AtomEntity list \<Rightarrow> out_event list" where
  "announce c = [ScoreUpdate (int (length c) * 100), IdentifyMolecule (composition c)]"

text \<open>The components a scan of the state reports as stable.\<close>

definition stableComponents :: "arena \<Rightarrow> AtomEntity list list" where
  "stableComponents s = map fst (filter reported (components (atoms s) (bonds s) (atoms s) {}))"

text \<open>
  The component of an identifier is stable: every atom in it is at its valency, and it
  has a member besides the identifier itself.
\<close>

definition stable_at :: "AtomEntity list \<Rightarrow> BondEntity list \<Rightarrow> string \<Rightarrow> bool" where
  "stable_at as bs v \<longleftrightarrow>
     (\<forall>a \<in> set as. a_id a \<in> component_of bs v \<longrightarrow> at_valency a)
     \<and> (\<exists>w \<in> component_of bs v. w \<noteq> v)"

text \<open>
  A store with one water molecule, complete, and a carbon atom with a single hydrogen.
\<close>

definition still_atom :: "string \<Rightarrow> AtomType \<Rightarrow> real \<Rightarrow> real \<Rightarrow> int \<Rightarrow> AtomEntity" where
  "still_atom i t x y c = \<lparr>a_id = i, a_type = t, a_x = x, a_y = y, a_vx = 0, a_vy = 0,
     currentBonds = c, bondedAtomIds = [], isDragging = False, fxScale = 1\<rparr>"

definition water :: arena where
  "water = initial\<lparr>
     atoms := [still_atom ''h1'' Atom_H 100 100 1, still_atom ''c1'' Atom_C 300 300 1,
               still_atom ''o1'' Atom_O 170 100 2, still_atom ''h2'' Atom_H 240 100 1,
               still_atom ''h3'' Atom_H 300 370 1],
     bonds := [\<lparr>b_id = ''k1'', atom1Id = ''h1'', atom2Id = ''o1'', stress = 0\<rparr>,
               \<lparr>b_id = ''k2'', atom1Id = ''h2'', atom2Id = ''o1'', stress = 0\<rparr>,
               \<lparr>b_id = ''k3'', atom1Id = ''c1'', atom2Id = ''h3'', stress = 0\<rparr>],
     bondHistory := [''k1'', ''k2'', ''k3'']\<rparr>"

subsection \<open>The store invariant\<close>

text \<open>The number of bond records that reference an identifier, as first or second atom.\<close>

definition degree :: "BondEntity list \<Rightarrow> string \<Rightarrow> int" where
  "degree bs v =
     int (length (filter (\<lambda>b. atom1Id b = v) bs)) + int (length (filter (\<lambda>b. atom2Id b = v) bs))"

text \<open>
  The store is sound: identifiers are unique, bonds join two different stored atoms,
  every atom counts exactly the bond records that reference it, within its valency.
\<close>

definition sound :: "AtomEntity list \<Rightarrow> BondEntity list \<Rightarrow> bool" where
  "sound as bs \<longleftrightarrow>
     store_ok as bs \<and> (\<forall>b \<in> set bs. atom1Id b \<noteq> atom2Id b)
     \<and> (\<forall>a \<in> set as. currentBonds a = degree bs (a_id a)) \<and> within_valency as"

text \<open>No stable component is waiting for a scan.\<close>

definition settled :: "AtomEntity list \<Rightarrow> BondEntity list \<Rightarrow> bool" where
  "settled as bs \<longleftrightarrow> (\<forall>a \<in> set as. \<not> stable_at as bs (a_id a))"

subsection \<open>A second example: two hydrogen atoms and an oxygen atom\<close>

text \<open>
  A frame that spawns a hydrogen atom beyond the top edge, and the atoms of the example
  at rest: \<open>h1\<close> at \<open>(70, 20)\<close>, \<open>o1\<close> at \<open>(28, 76)\<close>, 70 away from it, and \<open>h2\<close> at
  \<open>(130, 20)\<close>, 60 away from \<open>h1\<close>.
\<close>

definition spawn_top :: "real \<Rightarrow> string \<Rightarrow> real \<Rightarrow> tick_input" where
  "spawn_top t i rx = \<lparr>time = t, canvas_width = 1024, canvas_height = 1024,
     draws = \<lparr>container = Some (1024, 1024), r_type = 0, r_axis = 1/4, r_first = rx,
       r_second = 3/4, fresh_id = i, r_vx = 1/2, r_vy = 1/2\<rparr>, bond_uuid = ''unused''\<rparr>"


definition placed :: "string \<Rightarrow> AtomType \<Rightarrow> real \<Rightarrow> real \<Rightarrow> int \<Rightarrow> bool \<Rightarrow> real \<Rightarrow> AtomEntity" where
  "placed i t x y c d f = \<lparr>a_id = i, a_type = t, a_x = x, a_y = y, a_vx = 0, a_vy = 0,
     currentBonds = c, bondedAtomIds = [], isDragging = d, fxScale = f\<rparr>"






text \<open>Two hydrogen atoms alone: the bond between them completes a molecule.\<close>

definition two_hydrogens :: "event list" where
  "two_hydrogens = [Tick (spawn_top 2000 ''h1'' (35/512)), Tick (spawn_top 4000 ''h2'' (65/512))]"

definition hh_loose :: arena where
  "hh_loose = \<lparr>atoms = [placed ''h1'' Atom_H 70 20 0 False (1/10), placed ''h2'' Atom_H 130 20 0 False (1/20)],
     bonds = [], bondHistory = [], lastSpawn = 4000, draggedAtom = None, mouse = (0, 0),
     dragSessionBondedPairs = {}, emitted = []\<rparr>"

definition hh_held :: arena where
  "hh_held = \<lparr>atoms = [placed ''h1'' Atom_H 70 20 0 True (1/10), placed ''h2'' Atom_H 130 20 0 False (1/20)],
     bonds = [], bondHistory = [], lastSpawn = 4000, draggedAtom = Some ''h1'', mouse = (70, 20),
     dragSessionBondedPairs = {}, emitted = []\<rparr>"

definition hh_done :: arena where
  "hh_done = \<lparr>atoms = [], bonds = [], bondHistory = [''b1''], lastSpawn = 4000, draggedAtom = None,
     mouse = (70, 20), dragSessionBondedPairs = {''h1-h2''},
     emitted = [ScoreUpdate 200, IdentifyMolecule [(Atom_H, 2)]]\<rparr>"

subsection \<open>The claims about the gesture, the release and the scan\<close>

text \<open>The bond records that join two atoms, in either direction.\<close>

definition between :: "string \<Rightarrow> string \<Rightarrow> BondEntity list \<Rightarrow> BondEntity list" where
  "between a b bs =
     filter (\<lambda>x. (atom1Id x = a \<and> atom2Id x = b) \<or> (atom1Id x = b \<and> atom2Id x = a)) bs"


text \<open>
  The engine the claim about the scan describes, and more: every operation is followed
  by a stability scan before the next operation sees the state.
\<close>

definition scanned_step :: "arena \<Rightarrow> event \<Rightarrow> arena" where
  "scanned_step s e = checkMolecules (step s e)"

fun scanned_run :: "arena \<Rightarrow> event list \<Rightarrow> arena" where
  "scanned_run s [] = s"
| "scanned_run s (e # es) = scanned_run (scanned_step s e) es"

section \<open>Rounding to a double\<close>

lemma rhe_int: "round_half_even (of_int k) = k"
  by (simp add: round_half_even_def)

lemma rhe_range: "\<lfloor>y\<rfloor> \<le> round_half_even y" "round_half_even y \<le> \<lfloor>y\<rfloor> + 1"
  by (simp_all add: round_half_even_def Let_def)

lemma rhe_aux:
  fixes f :: int and d d' :: real
  assumes "d \<le> d'"
  shows "(if d < 1/2 then f else if d > 1/2 then f + 1 else if even f then f else f + 1)
       \<le> (if d' < 1/2 then f else if d' > 1/2 then f + 1 else if even f then f else f + 1)"
  using assms by auto

lemma rhe_mono: "y \<le> z \<Longrightarrow> round_half_even y \<le> round_half_even z"
proof -
  assume yz: "y \<le> z"
  then have f: "\<lfloor>y\<rfloor> \<le> \<lfloor>z\<rfloor>" by (rule floor_mono)
  show ?thesis
  proof (cases "\<lfloor>y\<rfloor> = \<lfloor>z\<rfloor>")
    case True
    from yz have "y - of_int \<lfloor>z\<rfloor> \<le> z - of_int \<lfloor>z\<rfloor>" by simp
    from rhe_aux [OF this] show ?thesis
      by (simp add: round_half_even_def Let_def True)
  next
    case False
    with f have "\<lfloor>y\<rfloor> + 1 \<le> \<lfloor>z\<rfloor>" by simp
    with rhe_range(2) [of y] rhe_range(1) [of z] show ?thesis by linarith
  qed
qed

lemma rhe_ge: "of_int k \<le> y \<Longrightarrow> k \<le> round_half_even y"
  using rhe_mono [of "of_int k" y] by (simp add: rhe_int)

lemma rhe_le: "y \<le> of_int k \<Longrightarrow> round_half_even y \<le> k"
  using rhe_mono [of y "of_int k"] by (simp add: rhe_int)

lemma rhe_below_half: "y < of_int m - 1/2 \<Longrightarrow> round_half_even y \<le> m - 1"
proof -
  assume a: "y < of_int m - 1/2"
  then have "y < of_int m" by simp
  then have f: "\<lfloor>y\<rfloor> \<le> m - 1" by (simp add: floor_less_iff)
  show ?thesis
  proof (cases "\<lfloor>y\<rfloor> = m - 1")
    case True
    with a have "y - of_int \<lfloor>y\<rfloor> < 1/2" by simp
    with True show ?thesis by (simp add: round_half_even_def Let_def)
  next
    case False
    with f rhe_range(2) [of y] show ?thesis by linarith
  qed
qed

lemma rhe_neg: "round_half_even (- y) = - round_half_even y"
proof (cases "y = of_int \<lfloor>y\<rfloor>")
  case True
  then obtain k where "y = of_int k" ..
  then have "- y = of_int (- k)" by simp
  with \<open>y = of_int k\<close> show ?thesis by (simp only: rhe_int)
next
  case False
  have lo: "of_int \<lfloor>y\<rfloor> \<le> y" and hi: "y < of_int \<lfloor>y\<rfloor> + 1"
    by linarith+
  from False lo have d: "of_int \<lfloor>y\<rfloor> < y" by linarith
  have nf: "\<lfloor>- y\<rfloor> = - \<lfloor>y\<rfloor> - 1"
  proof (rule floor_unique)
    show "of_int (- \<lfloor>y\<rfloor> - 1) \<le> - y" using hi by simp linarith
    show "- y < of_int (- \<lfloor>y\<rfloor> - 1) + 1" using d by simp
  qed
  define f where "f = \<lfloor>y\<rfloor>"
  define e where "e = y - of_int f"
  have y: "y = of_int f + e" by (simp add: e_def)
  have e: "0 < e" "e < 1" unfolding e_def f_def using d hi by linarith+
  have 1: "round_half_even y = (if e < 1/2 then f else if e > 1/2 then f + 1 else if even f then f else f + 1)"
    by (simp add: round_half_even_def Let_def f_def e_def)
  have 2: "round_half_even (- y) = (if 1 - e < 1/2 then - f - 1 else if 1 - e > 1/2 then - f else if even (- f - 1) then - f - 1 else - f)"
    unfolding round_half_even_def Let_def nf f_def [symmetric] by (simp add: y)
  show ?thesis
    unfolding 1 2 using e by auto
qed

lemma ulp_pos: "0 < ulp x"
  by (simp add: ulp_def)

lemma ulp_neg: "ulp (- x) = ulp x"
  by (simp add: ulp_def binade_def)

lemma round_double_neg: "round_double (- x) = - round_double x"
proof -
  have "- x / ulp x = - (x / ulp x)" by simp
  then show ?thesis
    by (simp add: round_double_def ulp_neg rhe_neg del: minus_divide_left)
qed

lemma binade_bounds:
  assumes "0 < x"
  shows "x < 2 powr (of_int (binade x) + 1)"
    and "- 1022 \<le> \<lfloor>log 2 x\<rfloor> \<Longrightarrow> 2 powr of_int (binade x) \<le> x"
proof -
  define k where "k = \<lfloor>log 2 x\<rfloor>"
  from assms floor_log_eq_powr_iff [of x 2 k]
  have k: "2 powr of_int k \<le> x" "x < 2 powr (of_int k + 1)"
    by (simp_all add: k_def)
  have kb: "k \<le> binade x"
    using assms by (simp add: binade_def k_def)
  then have "2 powr (of_int k + 1) \<le> (2::real) powr (of_int (binade x) + 1)"
    by (intro powr_mono) simp_all
  with k(2) show "x < 2 powr (of_int (binade x) + 1)"
    by linarith
  show "2 powr of_int (binade x) \<le> x" if "- 1022 \<le> \<lfloor>log 2 x\<rfloor>"
  proof -
    from that assms have "binade x = k" by (simp add: binade_def k_def)
    with k(1) show ?thesis by simp
  qed
qed

lemma ulp_scale:
  "ulp x * 2 ^ 53 = 2 powr (of_int (binade x) + 1)" "ulp x * 2 ^ 52 = 2 powr of_int (binade x)"
proof -
  have "ulp x * 2 ^ 53 = 2 powr (of_int (binade x) - 52) * 2 powr 53"
    by (simp add: ulp_def)
  also have "\<dots> = 2 powr (of_int (binade x) - 52 + 53)"
    by (simp only: powr_add)
  also have "of_int (binade x) - 52 + 53 = (of_int (binade x) + 1 :: real)"
    by simp
  finally show "ulp x * 2 ^ 53 = 2 powr (of_int (binade x) + 1)" .
  have "ulp x * 2 ^ 52 = 2 powr (of_int (binade x) - 52) * 2 powr 52"
    by (simp add: ulp_def)
  also have "\<dots> = 2 powr (of_int (binade x) - 52 + 52)"
    by (simp only: powr_add)
  also have "of_int (binade x) - 52 + 52 = (of_int (binade x) :: real)"
    by simp
  finally show "ulp x * 2 ^ 52 = 2 powr of_int (binade x)" .
qed

lemma rhe_le_real: "y \<le> of_int k \<Longrightarrow> of_int (round_half_even y) \<le> (of_int k :: real)"
  using rhe_le [of y k] by simp

lemma rhe_ge_real: "of_int k \<le> y \<Longrightarrow> (of_int k :: real) \<le> of_int (round_half_even y)"
  using rhe_ge [of k y] by simp

lemma round_double_range:
  assumes "0 < x"
  shows "0 \<le> round_double x" and "round_double x \<le> 2 powr (of_int (binade x) + 1)"
    and "- 1022 \<le> \<lfloor>log 2 x\<rfloor> \<Longrightarrow> 2 powr of_int (binade x) \<le> round_double x"
proof -
  note u = ulp_pos [of x]
  have r: "round_double x = ulp x * of_int (round_half_even (x / ulp x))"
    using assms by (simp add: round_double_def)
  have "of_int 0 \<le> x / ulp x" using assms u by simp
  from rhe_ge [OF this] show "0 \<le> round_double x"
    unfolding r using u by simp
  have "x < ulp x * 2 ^ 53"
    using binade_bounds(1) [OF assms] by (simp only: ulp_scale)
  then have "x / ulp x \<le> of_int (2 ^ 53)"
    using u by (simp add: pos_divide_le_eq mult.commute)
  from rhe_le_real [OF this] have "of_int (round_half_even (x / ulp x)) \<le> (2::real) ^ 53"
    by simp
  then have "ulp x * of_int (round_half_even (x / ulp x)) \<le> ulp x * 2 ^ 53"
    using u by (simp only: mult_le_cancel_left_pos)
  then show "round_double x \<le> 2 powr (of_int (binade x) + 1)"
    unfolding r ulp_scale .
  show "2 powr of_int (binade x) \<le> round_double x" if "- 1022 \<le> \<lfloor>log 2 x\<rfloor>"
  proof -
    have "ulp x * 2 ^ 52 \<le> x"
      using binade_bounds(2) [OF assms that] by (simp only: ulp_scale)
    then have "of_int (2 ^ 52) \<le> x / ulp x"
      using u by (simp add: pos_le_divide_eq mult.commute)
    from rhe_ge_real [OF this] have "(2::real) ^ 52 \<le> of_int (round_half_even (x / ulp x))"
      by simp
    then have "ulp x * 2 ^ 52 \<le> ulp x * of_int (round_half_even (x / ulp x))"
      using u by (simp only: mult_le_cancel_left_pos)
    then show ?thesis
      unfolding r ulp_scale .
  qed
qed

lemma round_double_zero: "round_double 0 = 0"
  by (simp add: round_double_def)

lemma binade_mono: "0 < x \<Longrightarrow> x \<le> y \<Longrightarrow> binade x \<le> binade y"
proof -
  assume "0 < x" "x \<le> y"
  then have "log 2 x \<le> log 2 y" by simp
  then have "\<lfloor>log 2 x\<rfloor> \<le> \<lfloor>log 2 y\<rfloor>" by (rule floor_mono)
  with \<open>0 < x\<close> \<open>x \<le> y\<close> show ?thesis by (simp add: binade_def)
qed

lemma round_double_mono_pos:
  assumes "0 < x" "x \<le> y"
  shows "round_double x \<le> round_double y"
proof (cases "binade x = binade y")
  case True
  then have u: "ulp y = ulp x" by (simp add: ulp_def)
  from assms ulp_pos [of x] have "x / ulp x \<le> y / ulp x"
    by (simp add: divide_right_mono)
  from rhe_mono [OF this]
  have "(of_int (round_half_even (x / ulp x)) :: real) \<le> of_int (round_half_even (y / ulp x))"
    by simp
  then have "ulp x * of_int (round_half_even (x / ulp x)) \<le> ulp x * of_int (round_half_even (y / ulp x))"
    using ulp_pos [of x] by (simp only: mult_le_cancel_left_pos)
  with assms show ?thesis
    by (simp add: round_double_def u)
next
  case False
  from assms have y: "0 < y" by simp
  from False binade_mono [OF assms] have lt: "binade x < binade y" by simp
  have "- 1022 \<le> binade x" by (simp add: binade_def)
  with lt have "- 1022 < binade y" by simp
  with y have fl: "- 1022 \<le> \<lfloor>log 2 y\<rfloor>" unfolding binade_def by simp linarith
  from lt have "(of_int (binade x) + 1 :: real) \<le> of_int (binade y)"
    by linarith
  then have "(2::real) powr (of_int (binade x) + 1) \<le> 2 powr of_int (binade y)"
    by (intro powr_mono) simp_all
  with round_double_range(2) [OF assms(1)] round_double_range(3) [OF y fl]
  show ?thesis by linarith
qed

lemma round_double_mono:
  assumes "x \<le> y"
  shows "round_double x \<le> round_double y"
proof -
  have nonneg: "0 \<le> round_double z" if "0 \<le> z" for z
    using that round_double_range(1) [of z] by (cases "z = 0") (simp_all add: round_double_zero)
  have nonpos: "round_double z \<le> 0" if "z \<le> 0" for z
    using nonneg [of "- z"] that by (simp add: round_double_neg)
  consider "0 < x" | "x \<le> 0" "0 \<le> y" | "y < 0" by linarith
  then show ?thesis
  proof cases
    case 1
    from round_double_mono_pos [OF 1 assms] show ?thesis .
  next
    case 2
    with nonneg [of y] nonpos [of x] show ?thesis by linarith
  next
    case 3
    with assms have "0 < - y" "- y \<le> - x" by simp_all
    from round_double_mono_pos [OF this] show ?thesis
      by (simp add: round_double_neg)
  qed
qed

lemma round_double_exact:
  assumes m: "\<bar>m\<bar> < 2 ^ 53" and e: "- 1074 \<le> e"
  shows "round_double (of_int m * 2 powr of_int e) = of_int m * 2 powr of_int e"
proof (cases "m = 0")
  case True
  then show ?thesis by (simp add: round_double_zero)
next
  case False
  define x :: real where "x = of_int m * 2 powr of_int e"
  have x0: "x \<noteq> 0" using False by (simp add: x_def)
  then have ax: "0 < \<bar>x\<bar>" by simp
  define k where "k = \<lfloor>log 2 \<bar>x\<bar>\<rfloor>"
  from ax floor_log_eq_powr_iff [of "\<bar>x\<bar>" 2 k]
  have k: "2 powr of_int k \<le> \<bar>x\<bar>"
    by (simp add: k_def)
  have "\<bar>x\<bar> = of_int \<bar>m\<bar> * 2 powr of_int e"
    by (simp add: x_def abs_mult)
  also have "\<dots> < 2 ^ 53 * 2 powr of_int e"
  proof -
    from m have "(of_int \<bar>m\<bar> :: real) < of_int (2 ^ 53)" by (simp only: of_int_less_iff)
    then show ?thesis by simp
  qed
  also have "\<dots> = 2 powr 53 * 2 powr of_int e" by simp
  also have "\<dots> = 2 powr (53 + of_int e)" by (simp only: powr_add)
  finally have "\<bar>x\<bar> < 2 powr (53 + of_int e)" .
  with k have "(2::real) powr of_int k < 2 powr (53 + of_int e)" by linarith
  then have "(of_int k :: real) < 53 + of_int e" by simp
  then have "k \<le> 52 + e" by linarith
  with e have b: "binade x \<le> 52 + e" by (simp add: binade_def k_def)
  define j where "j = nat (52 + e - binade x)"
  have j: "of_int e - (of_int (binade x) - 52) = real j"
    using b by (simp add: j_def)
  have "x / ulp x = of_int m * (2 powr of_int e / 2 powr (of_int (binade x) - 52))"
    by (simp add: x_def ulp_def)
  also have "2 powr of_int e / 2 powr (of_int (binade x) - 52) = (2::real) powr (of_int e - (of_int (binade x) - 52))"
    by (simp only: powr_diff)
  also have "\<dots> = 2 ^ j"
    unfolding j by (simp add: powr_realpow)
  finally have q: "x / ulp x = of_int (m * 2 ^ j)" by simp
  have "round_double x = ulp x * of_int (round_half_even (x / ulp x))"
    using x0 by (simp add: round_double_def)
  also have "\<dots> = ulp x * (x / ulp x)"
    unfolding q rhe_int ..
  also have "\<dots> = x" using ulp_pos [of x] by simp
  finally show ?thesis by (simp add: x_def)
qed

lemma round_double_of_int: "\<bar>n\<bar> < 2 ^ 53 \<Longrightarrow> round_double (of_int n) = of_int n"
  using round_double_exact [of n 0] by simp

lemma round_double_dyadic:
  assumes "\<bar>n\<bar> < 2 ^ 53" "k \<le> 1074"
  shows "round_double (of_int n / 2 ^ k) = of_int n / 2 ^ k"
proof -
  have "(2::real) powr of_int (- int k) = 1 / 2 ^ k"
    by (simp add: powr_minus powr_realpow field_simps)
  with round_double_exact [of n "- int k"] assms show ?thesis
    by simp
qed

lemma double_below_one:
  assumes "double r" "r < 1"
  shows "r \<le> 1 - 1 / 2 ^ 53"
proof (cases "r < 1/2")
  case True
  then show ?thesis by simp
next
  case False
  then have r: "1/2 \<le> r" "0 < r" by simp_all
  have "\<lfloor>log 2 \<bar>r\<bar>\<rfloor> = - 1"
    using r assms(2) floor_log_eq_powr_iff [of r 2 "- 1"] by (simp add: powr_minus)
  then have "binade r = - 1" by (simp add: binade_def)
  then have u: "ulp r = 1 / 2 ^ 53"
    by (simp add: ulp_def powr_minus field_simps)
  define K where "K = round_half_even (r / ulp r)"
  from assms(1) r have e: "r = ulp r * of_int K"
    by (simp add: double_def round_double_def K_def)
  with assms(2) have "of_int K / 2 ^ 53 < (1::real)" by (simp add: u)
  then have "(of_int K :: real) < of_int (2 ^ 53)" by simp
  then have "K < 2 ^ 53" by (simp only: of_int_less_iff)
  then have "K \<le> 2 ^ 53 - 1" by simp
  then have "(of_int K :: real) \<le> of_int (2 ^ 53 - 1)" by (simp only: of_int_le_iff)
  then have "of_int K / 2 ^ 53 \<le> ((2 ^ 53 - 1) / 2 ^ 53 :: real)"
    by (simp add: divide_right_mono)
  with e u show ?thesis by (simp add: field_simps)
qed

lemma round_double_numeral: "numeral n < (2::int) ^ 53 \<Longrightarrow> round_double (numeral n) = numeral n"
  using round_double_of_int [of "numeral n"] by simp

lemma round_double_minus_one: "round_double (- 1) = - 1"
  using round_double_of_int [of "- 1"] by simp

lemma round_double_one: "round_double 1 = 1"
  using round_double_of_int [of 1] by simp

lemma round_double_half: "round_double (1/2) = 1/2" "round_double (- (1/2)) = - (1/2)"
  using round_double_dyadic [of 1 1] round_double_dyadic [of "- 1" 1] by simp_all

lemma double_numeral: "numeral n < (2::int) ^ 53 \<Longrightarrow> double (numeral n)"
  by (simp add: double_def round_double_numeral)

lemma double_zero: "double 0"
  by (simp add: double_def round_double_zero)

lemma double_dyadic: "\<bar>n\<bar> < 2 ^ 53 \<Longrightarrow> k \<le> 1074 \<Longrightarrow> double (of_int n / 2 ^ k)"
  by (simp add: double_def round_double_dyadic)

lemma round_double_between:
  assumes "double a" "double b" "a \<le> x" "x \<le> b"
  shows "a \<le> round_double x" "round_double x \<le> b"
  using round_double_mono [OF assms(3)] round_double_mono [OF assms(4)] assms(1,2)
  by (simp_all add: double_def)

lemma centred_bounds:
  assumes "unit_draw r"
  shows "- 1 \<le> centred r" "centred r < 1"
proof -
  from assms have r: "double r" "0 \<le> r" "r < 1" by (simp_all add: unit_draw_def)
  from double_below_one [OF r(1,3)] have hi: "r - 0.5 \<le> (2 ^ 52 - 1) / 2 ^ 53"
    by simp
  have lo: "- (1/2) \<le> r - 0.5" using r(2) by simp
  have d1: "double (- (1/2))" by (simp add: double_def round_double_half)
  have d2: "double ((2 ^ 52 - 1) / 2 ^ 53)"
    using double_dyadic [of "2 ^ 52 - 1" 53] by simp
  note a = round_double_between [OF d1 d2 lo hi]
  have d3: "double (- 1)" by (simp add: double_def round_double_minus_one)
  have d4: "double ((2 ^ 52 - 1) / 2 ^ 52)"
    using double_dyadic [of "2 ^ 52 - 1" 52] by simp
  from a have lo2: "- 1 \<le> round_double (r - 0.5) * 2"
    and hi2: "round_double (r - 0.5) * 2 \<le> (2 ^ 52 - 1) / 2 ^ 52"
    by simp_all
  note b = round_double_between [OF d3 d4 lo2 hi2]
  from b(1) show "- 1 \<le> centred r" by (simp add: centred_def)
  from b(2) show "centred r < 1" by (simp add: centred_def)
qed

lemma scaled_bounds:
  assumes "unit_draw r" "double w" "0 \<le> w"
  shows "0 \<le> round_double (r * w)" "round_double (r * w) \<le> w"
proof -
  from assms have r: "0 \<le> r" "r < 1" by (simp_all add: unit_draw_def)
  have "0 \<le> r * w" using r assms(3) by simp
  moreover have "r * w \<le> w" using r assms(3) by (simp add: mult_left_le_one_le)
  ultimately show "0 \<le> round_double (r * w)" "round_double (r * w) \<le> w"
    using round_double_between [OF double_zero assms(2)] by simp_all
qed

lemma type_index_bounds:
  assumes "unit_draw r"
  shows "0 \<le> round_double (r * 11)" "round_double (r * 11) < 11"
proof -
  from assms have r: "double r" "0 \<le> r" "r < 1" by (simp_all add: unit_draw_def)
  have d11: "double 11" by (simp add: double_numeral)
  from scaled_bounds(1) [OF assms d11] show "0 \<le> round_double (r * 11)" by simp
  define x where "x = r * 11"
  from double_below_one [OF r(1,3)] have x: "x \<le> 11 - 11 / 2 ^ 53"
    by (simp add: x_def)
  show "round_double (r * 11) < 11"
  proof (cases "x < 8")
    case True
    have "double 8" by (simp add: double_numeral)
    from round_double_between(2) [OF double_zero this, of x] True r(2)
    have "round_double x \<le> 8" by (simp add: x_def)
    then show ?thesis by (simp add: x_def)
  next
    case False
    then have x8: "8 \<le> x" "0 < x" "x \<noteq> 0" by simp_all
    from x have x16: "x < 16" by simp
    have "\<lfloor>log 2 \<bar>x\<bar>\<rfloor> = 3"
      using x8 x16 floor_log_eq_powr_iff [of x 2 3] by simp
    then have "binade x = 3" by (simp add: binade_def)
    then have u: "ulp x = 1 / 2 ^ 49"
      by (simp add: ulp_def powr_minus field_simps)
    have "x / ulp x = x * 2 ^ 49" by (simp add: u)
    also have "\<dots> \<le> (11 - 11 / 2 ^ 53) * 2 ^ 49" using x by simp
    also have "\<dots> < of_int (11 * 2 ^ 49) - 1/2" by simp
    finally have "round_half_even (x / ulp x) \<le> 11 * 2 ^ 49 - 1"
      by (rule rhe_below_half)
    then have "(of_int (round_half_even (x / ulp x)) :: real) \<le> of_int (11 * 2 ^ 49 - 1)"
      by (simp only: of_int_le_iff)
    then have "round_double x \<le> (11 * 2 ^ 49 - 1) / 2 ^ 49"
      using x8 by (simp add: round_double_def u field_simps)
    also have "\<dots> < (11::real)" by simp
    finally show ?thesis by (simp add: x_def)
  qed
qed

lemma type_index: "unit_draw r \<Longrightarrow> nat \<lfloor>round_double (r * 11)\<rfloor> < 11"
proof -
  assume "unit_draw r"
  from type_index_bounds [OF this] have "\<lfloor>round_double (r * 11)\<rfloor> < 11"
    by (simp add: floor_less_iff)
  then show ?thesis by linarith
qed

section \<open>The spawner\<close>

lemma radius_pos: "0 < radius (ATOM_DEFS ty)"
  by (cases ty) simp_all

lemma valency_pos: "1 \<le> valency (ATOM_DEFS ty)"
  by (cases ty) simp_all

lemma spawn_index:
  "unit_draw r \<Longrightarrow> nat \<lfloor>round_double (r * real (length spawn_types))\<rfloor> < length spawn_types"
proof -
  assume "unit_draw r"
  from type_index [OF this] show ?thesis
    by (simp add: spawn_types_def)
qed

lemma new_atom_fields:
  "a_id (new_atom d w h ty) = fresh_id d" "a_type (new_atom d w h ty) = ty"
  "a_vx (new_atom d w h ty) = centred (r_vx d)" "a_vy (new_atom d w h ty) = centred (r_vy d)"
  "currentBonds (new_atom d w h ty) = 0" "bondedAtomIds (new_atom d w h ty) = []"
  "isDragging (new_atom d w h ty) = False"
  "a_x (new_atom d w h ty) = fst (spawn_position d w h (ATOM_DEFS ty))"
  "a_y (new_atom d w h ty) = snd (spawn_position d w h (ATOM_DEFS ty))"
  by (simp_all add: new_atom_def Let_def split: prod.splits)

lemma new_atom_outside:
  assumes "unit_draws d" "double w" "0 \<le> w" "double h" "0 \<le> h"
  shows "outside_edge w h (new_atom d w h ty)"
proof -
  have f: "unit_draw (r_first d)" and s: "unit_draw (r_second d)"
    using assms(1) by (simp_all add: unit_draws_def)
  note fw = scaled_bounds [OF f assms(2,3)]
  note sh = scaled_bounds [OF s assms(4,5)]
  show ?thesis
    using fw sh by (simp add: outside_edge_def new_atom_fields spawn_position_def)
qed

text \<open>
  C9, as the code has it. An atom is appended exactly when more than 1500 ms have passed
  since the last spawn and fewer than 18 atoms exist; it has the type at the drawn index
  of the weighted list (three H, two O, two C, one each of N, Cl, S, P), lies one radius
  outside an edge of the container, has no bonds, and each component of its velocity is
  \<open>(Math.random() - 0.5) * 2\<close>, a number in \<open>[-1, 1)\<close> whatever the edge.
\<close>

theorem spawner_random_velocity:
  assumes "unit_draws (draws i)" and "container (draws i) = Some (w, h)"
    and "double w" and "0 \<le> w" and "double h" and "0 \<le> h"
  shows "(atoms (spawning i s) \<noteq> atoms s \<longrightarrow>
            round_double (time i - lastSpawn s) > 1500 \<and> length (atoms s) < 18)
    \<and> (round_double (time i - lastSpawn s) > 1500 \<and> length (atoms s) < 18 \<longrightarrow>
         (\<exists>a. atoms (spawning i s) = atoms s @ [a]
            \<and> nat \<lfloor>round_double (r_type (draws i) * 11)\<rfloor> < 11
            \<and> a_type a = spawn_types ! nat \<lfloor>round_double (r_type (draws i) * 11)\<rfloor>
            \<and> a_type a \<in> set spawn_types
            \<and> outside_edge w h a
            \<and> a_vx a = centred (r_vx (draws i)) \<and> a_vy a = centred (r_vy (draws i))
            \<and> - 1 \<le> a_vx a \<and> a_vx a < 1 \<and> - 1 \<le> a_vy a \<and> a_vy a < 1
            \<and> currentBonds a = 0 \<and> a_id a = fresh_id (draws i)))
    \<and> count_list spawn_types Atom_H = 3 \<and> count_list spawn_types Atom_O = 2
    \<and> count_list spawn_types Atom_C = 2 \<and> count_list spawn_types Atom_N = 1
    \<and> count_list spawn_types Atom_Cl = 1 \<and> count_list spawn_types Atom_S = 1
    \<and> count_list spawn_types Atom_P = 1"
proof -
  let ?k = "nat \<lfloor>round_double (r_type (draws i) * real (length spawn_types))\<rfloor>"
  let ?a = "new_atom (draws i) w h (spawn_types ! ?k)"
  have k: "?k < length spawn_types"
    using assms(1) by (simp add: unit_draws_def spawn_index)
  have len: "length spawn_types = 11"
    by (simp add: spawn_types_def)
  have sp: "spawnAtom (draws i) (atoms s) = atoms s @ [?a]"
    using k assms(2) by (simp add: spawnAtom_def)
  have v: "unit_draw (r_vx (draws i))" "unit_draw (r_vy (draws i))"
    using assms(1) by (simp_all add: unit_draws_def)
  have only: "atoms (spawning i s) \<noteq> atoms s \<longrightarrow>
      round_double (time i - lastSpawn s) > 1500 \<and> length (atoms s) < 18"
    by (simp add: spawning_def spawn_due_def)
  have made: "round_double (time i - lastSpawn s) > 1500 \<and> length (atoms s) < 18 \<longrightarrow>
         (\<exists>a. atoms (spawning i s) = atoms s @ [a]
            \<and> nat \<lfloor>round_double (r_type (draws i) * 11)\<rfloor> < 11
            \<and> a_type a = spawn_types ! nat \<lfloor>round_double (r_type (draws i) * 11)\<rfloor>
            \<and> a_type a \<in> set spawn_types
            \<and> outside_edge w h a
            \<and> a_vx a = centred (r_vx (draws i)) \<and> a_vy a = centred (r_vy (draws i))
            \<and> - 1 \<le> a_vx a \<and> a_vx a < 1 \<and> - 1 \<le> a_vy a \<and> a_vy a < 1
            \<and> currentBonds a = 0 \<and> a_id a = fresh_id (draws i))"
  proof
    assume c: "round_double (time i - lastSpawn s) > 1500 \<and> length (atoms s) < 18"
    have 1: "atoms (spawning i s) = atoms s @ [?a]"
      using c sp by (simp add: spawning_def spawn_due_def)
    have 0: "nat \<lfloor>round_double (r_type (draws i) * 11)\<rfloor> < 11"
      using k by (simp add: len)
    have 2: "a_type ?a = spawn_types ! nat \<lfloor>round_double (r_type (draws i) * 11)\<rfloor>"
      by (simp add: new_atom_fields len)
    have 3: "a_type ?a \<in> set spawn_types"
      using k by (simp add: new_atom_fields)
    have 4: "outside_edge w h ?a"
      using assms by (simp add: new_atom_outside)
    have 5: "a_vx ?a = centred (r_vx (draws i)) \<and> a_vy ?a = centred (r_vy (draws i))
        \<and> - 1 \<le> a_vx ?a \<and> a_vx ?a < 1 \<and> - 1 \<le> a_vy ?a \<and> a_vy ?a < 1"
      using centred_bounds [OF v(1)] centred_bounds [OF v(2)] by (simp add: new_atom_fields)
    have 6: "currentBonds ?a = 0 \<and> a_id ?a = fresh_id (draws i)"
      by (simp add: new_atom_fields)
    from 0 1 2 3 4 5 6 show "\<exists>a. atoms (spawning i s) = atoms s @ [a]
            \<and> nat \<lfloor>round_double (r_type (draws i) * 11)\<rfloor> < 11
            \<and> a_type a = spawn_types ! nat \<lfloor>round_double (r_type (draws i) * 11)\<rfloor>
            \<and> a_type a \<in> set spawn_types
            \<and> outside_edge w h a
            \<and> a_vx a = centred (r_vx (draws i)) \<and> a_vy a = centred (r_vy (draws i))
            \<and> - 1 \<le> a_vx a \<and> a_vx a < 1 \<and> - 1 \<le> a_vy a \<and> a_vy a < 1
            \<and> currentBonds a = 0 \<and> a_id a = fresh_id (draws i)"
      by blast
  qed
  have counts: "count_list spawn_types Atom_H = 3 \<and> count_list spawn_types Atom_O = 2
    \<and> count_list spawn_types Atom_C = 2 \<and> count_list spawn_types Atom_N = 1
    \<and> count_list spawn_types Atom_Cl = 1 \<and> count_list spawn_types Atom_S = 1
    \<and> count_list spawn_types Atom_P = 1"
    by (simp add: spawn_types_def)
  from only made counts show ?thesis
    by blast
qed

lemma centred_values: "centred 0 = - 1" "centred (1/2) = 0"
  by (simp_all add: centred_def round_double_half round_double_minus_one round_double_zero)

lemma unit_draw_values: "unit_draw 0" "unit_draw (1/2)" "unit_draw (3/4)"
  using double_dyadic [of 1 1] double_dyadic [of 3 2] by (simp_all add: unit_draw_def double_zero)

lemma example_spawn:
  "atoms (spawning example_tick initial) =
     [\<lparr>a_id = ''a1'', a_type = Atom_H, a_x = - 20, a_y = 300, a_vx = - 1, a_vy = 0,
       currentBonds = 0, bondedAtomIds = [], isDragging = False, fxScale = 0\<rparr>]"
  by (simp add: spawning_def spawn_due_def spawnAtom_def new_atom_def spawn_position_def
      example_tick_def example_draws_def initial_def spawn_types_def round_double_numeral
      round_double_zero centred_values)

lemma tie_rounds_up:
  "round_double (13510798882111487 / 4503599627370496) = 3"
  "\<lfloor>13510798882111487 / 4503599627370496 :: real\<rfloor> = 2"
proof -
  define x :: real where "x = 13510798882111487 / 4503599627370496"
  have b: "2 \<le> x" "x < 4" "x \<noteq> 0" by (simp_all add: x_def)
  have "\<lfloor>log 2 \<bar>x\<bar>\<rfloor> = 1"
    using b floor_log_eq_powr_iff [of x 2 1] by simp
  then have "binade x = 1" by (simp add: binade_def)
  then have u: "ulp x = 1 / 2251799813685248"
    by (simp add: ulp_def powr_minus field_simps)
  have q: "x / ulp x = of_int 6755399441055743 + 1/2"
    unfolding u by (simp add: x_def)
  have f: "\<lfloor>x / ulp x\<rfloor> = 6755399441055743"
    unfolding q by (rule floor_unique) simp_all
  have "round_half_even (x / ulp x) = 6755399441055744"
    unfolding round_half_even_def Let_def f by (simp add: q)
  then have "round_double x = 3"
    using b(3) unfolding round_double_def u by simp
  then show "round_double (13510798882111487 / 4503599627370496) = 3"
    by (simp add: x_def)
  show "\<lfloor>13510798882111487 / 4503599627370496 :: real\<rfloor> = 2"
    by (rule floor_unique) simp_all
qed

lemma tie_spawn:
  "atoms (spawning tie_tick initial) =
     [\<lparr>a_id = ''a2'', a_type = Atom_O, a_x = - 28, a_y = 300, a_vx = 0, a_vy = 0,
       currentBonds = 0, bondedAtomIds = [], isDragging = False, fxScale = 0\<rparr>]"
  by (simp add: spawning_def spawn_due_def spawnAtom_def new_atom_def spawn_position_def
      tie_tick_def tie_draws_def initial_def spawn_types_def round_double_numeral
      round_double_zero centred_values tie_rounds_up)

lemma tie_unit: "unit_draws (draws tie_tick)"
proof -
  have "double (1228254443828317 / 4503599627370496)"
    using double_dyadic [of 1228254443828317 52] by simp
  then show ?thesis
    using unit_draw_values by (simp add: tie_tick_def tie_draws_def unit_draws_def unit_draw_def)
qed

theorem spawner_random_velocity_witness:
  "atoms (spawning example_tick initial) =
     [\<lparr>a_id = ''a1'', a_type = Atom_H, a_x = - 20, a_y = 300, a_vx = - 1, a_vy = 0,
       currentBonds = 0, bondedAtomIds = [], isDragging = False, fxScale = 0\<rparr>]
   \<and> outside_edge 800 600 (hd (atoms (spawning example_tick initial)))
   \<and> nat \<lfloor>round_double (r_type (draws example_tick) * 11)\<rfloor> = 0
   \<and> nat \<lfloor>r_type (draws tie_tick) * 11\<rfloor> = 2
   \<and> nat \<lfloor>round_double (r_type (draws tie_tick) * 11)\<rfloor> = 3
   \<and> atoms (spawning tie_tick initial) =
     [\<lparr>a_id = ''a2'', a_type = Atom_O, a_x = - 28, a_y = 300, a_vx = 0, a_vy = 0,
       currentBonds = 0, bondedAtomIds = [], isDragging = False, fxScale = 0\<rparr>]
   \<and> a_type (hd (atoms (spawning tie_tick initial))) = spawn_types ! 3"
proof -
  have tu: "container (draws tie_tick) = Some (800, 600)"
    by (simp add: tie_tick_def tie_draws_def)
  have tt: "round_double (time tie_tick - lastSpawn initial) > 1500 \<and> length (atoms initial) < 18"
    by (simp add: tie_tick_def initial_def round_double_numeral)
  have ti: "nat \<lfloor>round_double (r_type (draws tie_tick) * 11)\<rfloor> = 3"
    "nat \<lfloor>r_type (draws tie_tick) * 11\<rfloor> = 2"
    by (simp_all add: tie_tick_def tie_draws_def tie_rounds_up)
  have u: "unit_draws (draws example_tick)"
    by (simp add: example_tick_def example_draws_def unit_draws_def unit_draw_values)
  have c: "container (draws example_tick) = Some (800, 600)"
    by (simp add: example_tick_def example_draws_def)
  have d: "double 800" "0 \<le> (800::real)" "double 600" "0 \<le> (600::real)"
    by (simp_all add: double_numeral)
  have t: "round_double (time example_tick - lastSpawn initial) > 1500 \<and> length (atoms initial) < 18"
    by (simp add: example_tick_def initial_def round_double_numeral)
  from spawner_random_velocity [OF u c d, of initial] t
  obtain a where a: "atoms (spawning example_tick initial) = atoms initial @ [a]" "outside_edge 800 600 a"
    by auto
  from spawner_random_velocity [OF tie_unit tu d, of initial] tt
  obtain b where b: "atoms (spawning tie_tick initial) = atoms initial @ [b]"
    "a_type b = spawn_types ! nat \<lfloor>round_double (r_type (draws tie_tick) * 11)\<rfloor>"
    by auto
  have z: "nat \<lfloor>round_double (r_type (draws example_tick) * 11)\<rfloor> = 0"
    by (simp add: example_tick_def example_draws_def round_double_zero)
  from b have "a_type (hd (atoms (spawning tie_tick initial))) = spawn_types ! 3"
    unfolding ti by (simp add: initial_def)
  with a z ti tie_spawn show ?thesis
    using example_spawn by (simp add: initial_def)
qed

text \<open>
  The claim that the new atom's velocity is directed into the arena does not hold: an
  atom spawned beyond the left edge with the velocity draw 0 moves left, away from it.
\<close>

theorem spawner_inward_counterexample:
  "\<not> inward 800 600 (hd (atoms (spawning example_tick initial)))"
  by (simp add: example_spawn inward_def)

section \<open>Physics and rendering leave the discrete fields alone\<close>

lemma core_update:
  "core x = core (cur ! i) \<Longrightarrow> map core (cur[i := x]) = map core cur"
proof (cases "i < length cur")
  case True
  assume "core x = core (cur ! i)"
  with True show ?thesis
    by (simp add: map_update) (metis list_update_id map_update)
next
  case False
  then have "cur[i := x] = cur" by (simp add: list_update_beyond not_less)
  then show ?thesis by simp
qed

lemma core_nth:
  "map core xs = map core ys \<Longrightarrow> i < length ys \<Longrightarrow> core (xs ! i) = core (ys ! i)"
  by (metis length_map nth_map)

lemma core_length: "map core xs = map core ys \<Longrightarrow> length xs = length ys"
  by (metis length_map)

lemma core_integrate: "core (integrate m w h a) = core a"
  by (simp add: integrate_def core_def Let_def)

lemma core_pairForce:
  "core (fst (pairForce bs a b)) = core a" "core (snd (pairForce bs a b)) = core b"
  by (simp_all add: pairForce_def core_def Let_def)

lemma core_pair_step:
  assumes "i < length cur" "j < length cur"
  shows "map core (case pairForce bs (cur ! i) (cur ! j) of (a, b) \<Rightarrow> cur[i := a, j := b]) = map core cur"
proof -
  obtain a b where p: "pairForce bs (cur ! i) (cur ! j) = (a, b)"
    by (cases "pairForce bs (cur ! i) (cur ! j)")
  have a: "core a = core (cur ! i)" and b: "core b = core (cur ! j)"
    using core_pairForce [of bs "cur ! i" "cur ! j"] p by simp_all
  have 1: "map core (cur[i := a]) = map core cur"
    using a by (rule core_update)
  have "core b = core (cur[i := a] ! j)"
    using b core_nth [OF 1 assms(2)] by simp
  then have "map core (cur[i := a, j := b]) = map core (cur[i := a])"
    by (rule core_update)
  with 1 p show ?thesis by simp
qed

lemma core_fold_pairs:
  "\<forall>j \<in> set js. j < length as \<Longrightarrow> i < length as \<Longrightarrow>
   map core (fold (\<lambda>j cur. (case pairForce bs (cur ! i) (cur ! j) of (a, b) \<Rightarrow> cur[i := a, j := b])) js as)
     = map core as"
proof (induction js arbitrary: as)
  case Nil
  then show ?case by simp
next
  case (Cons j js)
  let ?as1 = "case pairForce bs (as ! i) (as ! j) of (a, b) \<Rightarrow> as[i := a, j := b]"
  have 1: "map core ?as1 = map core as"
    using Cons.prems by (intro core_pair_step) simp_all
  then have len: "length ?as1 = length as"
    by (rule core_length)
  have "map core (fold (\<lambda>j cur. (case pairForce bs (cur ! i) (cur ! j) of (a, b) \<Rightarrow> cur[i := a, j := b])) js ?as1)
     = map core ?as1"
    using Cons.prems len by (intro Cons.IH) simp_all
  with 1 show ?case by simp
qed

lemma core_forcesInner: "i < length as \<Longrightarrow> map core (forcesInner bs i as) = map core as"
  unfolding forcesInner_def by (rule core_fold_pairs) simp_all

lemma core_fold_forces:
  "\<forall>i \<in> set is. i < length as \<Longrightarrow> map core (fold (forcesInner bs) is as) = map core as"
proof (induction "is" arbitrary: as)
  case Nil
  then show ?case by simp
next
  case (Cons i "is")
  have 1: "map core (forcesInner bs i as) = map core as"
    using Cons.prems by (simp add: core_forcesInner)
  then have "length (forcesInner bs i as) = length as"
    by (rule core_length)
  with Cons.prems have "map core (fold (forcesInner bs) is (forcesInner bs i as)) = map core (forcesInner bs i as)"
    by (intro Cons.IH) simp
  with 1 show ?case by simp
qed

lemma core_forces: "map core (forces bs as) = map core as"
  unfolding forces_def by (rule core_fold_forces) simp

lemma core_physics: "map core (atoms (physics i s)) = map core (atoms s)"
  by (simp add: physics_def core_forces core_integrate o_def)

lemma core_render: "map core (atoms (render s)) = map core (atoms s)"
  by (simp add: render_def core_def o_def)

section \<open>Lookups, the bond candidate and the shape of a scan\<close>

lemma findIndex_Some:
  "findIndex p xs = Some i \<Longrightarrow> i < length xs \<and> p (xs ! i) \<and> (\<forall>j<i. \<not> p (xs ! j))"
proof (induction xs arbitrary: i)
  case Nil
  then show ?case by simp
next
  case (Cons x xs)
  show ?case
  proof (cases "p x")
    case True
    with Cons.prems show ?thesis by simp
  next
    case False
    with Cons.prems obtain k where k: "findIndex p xs = Some k" "i = Suc k"
      by auto
    from Cons.IH [OF k(1)] False k(2) show ?thesis
      by (auto simp: less_Suc_eq_0_disj)
  qed
qed

lemma findIndex_None: "findIndex p xs = None \<longleftrightarrow> (\<forall>x \<in> set xs. \<not> p x)"
  by (induction xs) auto

lemma findIndex_unique:
  "distinct (map f xs) \<Longrightarrow> i < length xs \<Longrightarrow> findIndex (\<lambda>x. f x = f (xs ! i)) xs = Some i"
proof (induction xs arbitrary: i)
  case Nil
  then show ?case by simp
next
  case (Cons x xs)
  show ?case
  proof (cases i)
    case 0
    then show ?thesis by simp
  next
    case (Suc k)
    with Cons.prems have "f x \<noteq> f (xs ! k)" by auto
    with Cons Suc show ?thesis by simp
  qed
qed

lemma bondCandidate_Some:
  assumes "bondCandidate s = Some (i, j)"
  shows "i < length (atoms s)" "j < length (atoms s)"
    "a_id (atoms s ! j) \<noteq> a_id (atoms s ! i)"
    "draggedAtom s = Some (a_id (atoms s ! i))"
    "currentBonds (atoms s ! i) < valency (ATOM_DEFS (a_type (atoms s ! i)))"
    "currentBonds (atoms s ! j) < valency (ATOM_DEFS (a_type (atoms s ! j)))"
    "pairKey (a_id (atoms s ! i)) (a_id (atoms s ! j)) \<notin> dragSessionBondedPairs s"
    "bondable s (atoms s ! i) (atoms s ! j)"
proof -
  from assms obtain d where d: "draggedAtom s = Some d" "d \<noteq> []"
    by (auto simp: bondCandidate_def split: option.splits if_splits)
  from assms d obtain i' where i': "findIndex (\<lambda>a. a_id a = d) (atoms s) = Some i'"
    by (auto simp: bondCandidate_def split: option.splits if_splits)
  from assms d i' have c: "currentBonds (atoms s ! i') < valency (ATOM_DEFS (a_type (atoms s ! i')))"
    and j: "findIndex (bondable s (atoms s ! i')) (atoms s) = Some j" and ii: "i' = i"
    by (auto simp: bondCandidate_def Let_def split: if_splits)
  from findIndex_Some [OF i'] ii have fi: "i < length (atoms s)" "a_id (atoms s ! i) = d"
    by simp_all
  from findIndex_Some [OF j] ii have fj: "j < length (atoms s)" "bondable s (atoms s ! i) (atoms s ! j)"
    by simp_all
  show "i < length (atoms s)" "j < length (atoms s)" "bondable s (atoms s ! i) (atoms s ! j)"
    using fi fj by simp_all
  show "draggedAtom s = Some (a_id (atoms s ! i))"
    using d fi by simp
  show "currentBonds (atoms s ! i) < valency (ATOM_DEFS (a_type (atoms s ! i)))"
    using c ii by simp
  show "a_id (atoms s ! j) \<noteq> a_id (atoms s ! i)"
    using fj(2) by (auto simp: bondable_def split: if_splits)
  show "currentBonds (atoms s ! j) < valency (ATOM_DEFS (a_type (atoms s ! j)))"
    using fj(2) by (auto simp: bondable_def split: if_splits)
  show "pairKey (a_id (atoms s ! i)) (a_id (atoms s ! j)) \<notin> dragSessionBondedPairs s"
    using fj(2) by (auto simp: bondable_def Let_def split: if_splits)
qed

lemma checkMolecules_eq:
  "checkMolecules s =
     s\<lparr>emitted := emitted s @ scanOut s,
       atoms := filter (\<lambda>a. a_id a \<notin> set (toRemove s)) (atoms s),
       bonds := filter (\<lambda>b. atom1Id b \<notin> set (toRemove s) \<and> atom2Id b \<notin> set (toRemove s)) (bonds s),
       draggedAtom := (case draggedAtom s of
                         None \<Rightarrow> None
                       | Some d \<Rightarrow> if d \<noteq> [] \<and> d \<in> set (toRemove s) then None else Some d)\<rparr>"
proof -
  obtain v tr out where sc: "scanAtoms (atoms s) (bonds s) (atoms s) ({}, [], []) = (v, tr, out)"
    by (cases "scanAtoms (atoms s) (bonds s) (atoms s) ({}, [], [])")
  then have tr: "toRemove s = tr" and out: "scanOut s = out"
    by (simp_all add: toRemove_def scanOut_def)
  show ?thesis
  proof (cases "tr = []")
    case True
    have "(case draggedAtom s of None \<Rightarrow> None | Some d \<Rightarrow> Some d) = draggedAtom s"
      by (cases "draggedAtom s") simp_all
    moreover have "toRemove s = []" "scanOut s = out"
      using True tr out by simp_all
    moreover have "checkMolecules s = s\<lparr>emitted := emitted s @ out\<rparr>"
      using True sc by (simp add: checkMolecules_def)
    ultimately show ?thesis
      by (cases "draggedAtom s") simp_all
  next
    case False
    then show ?thesis
      using sc by (cases "draggedAtom s") (simp_all add: checkMolecules_def tr out)
  qed
qed

lemma checkMolecules_fields:
  "atoms (checkMolecules s) = filter (\<lambda>a. a_id a \<notin> set (toRemove s)) (atoms s)"
  "bonds (checkMolecules s) =
     filter (\<lambda>b. atom1Id b \<notin> set (toRemove s) \<and> atom2Id b \<notin> set (toRemove s)) (bonds s)"
  "emitted (checkMolecules s) = emitted s @ scanOut s"
  "bondHistory (checkMolecules s) = bondHistory s"
  "dragSessionBondedPairs (checkMolecules s) = dragSessionBondedPairs s"
  "lastSpawn (checkMolecules s) = lastSpawn s"
  "mouse (checkMolecules s) = mouse s"
  "draggedAtom (checkMolecules s) =
     (case draggedAtom s of
        None \<Rightarrow> None
      | Some d \<Rightarrow> if d \<noteq> [] \<and> d \<in> set (toRemove s) then None else Some d)"
  by (simp_all add: checkMolecules_eq)

section \<open>No atom exceeds its valency\<close>

lemma within_valency_core:
  "within_valency as \<longleftrightarrow>
     (\<forall>c \<in> set (map core as). 0 \<le> fst (snd (snd c)) \<and> fst (snd (snd c)) \<le> valency (ATOM_DEFS (fst (snd c))))"
  by (simp add: within_valency_def core_def)

lemma within_valency_cong:
  "map core as' = map core as \<Longrightarrow> within_valency as' = within_valency as"
  by (simp only: within_valency_core)

lemma within_valency_filter: "within_valency as \<Longrightarrow> within_valency (filter P as)"
  by (simp add: within_valency_def)

lemma within_valency_update:
  assumes "within_valency as" "0 \<le> currentBonds x" "currentBonds x \<le> valency (ATOM_DEFS (a_type x))"
  shows "within_valency (as[k := x])"
proof -
  have "set (as[k := x]) \<subseteq> insert x (set as)"
    by (rule set_update_subset_insert)
  with assms show ?thesis
    unfolding within_valency_def by blast
qed

lemma within_valency_nth: "within_valency as \<Longrightarrow> k < length as \<Longrightarrow>
  0 \<le> currentBonds (as ! k) \<and> currentBonds (as ! k) \<le> valency (ATOM_DEFS (a_type (as ! k)))"
  by (simp add: within_valency_def)

lemma within_valency_spawning:
  assumes "within_valency (atoms s)"
  shows "within_valency (atoms (spawning i s))"
proof -
  have "0 \<le> valency (ATOM_DEFS ty)" for ty
    using valency_pos [of ty] by simp
  then have "within_valency (spawnAtom d as)" if "within_valency as" for d as
    using that by (auto simp: spawnAtom_def within_valency_def new_atom_fields Let_def split: option.splits)
  with assms show ?thesis
    by (simp add: spawning_def)
qed

lemma within_valency_createBond:
  assumes c: "bondCandidate s = Some (i, j)" and w: "within_valency (atoms s)"
  shows "within_valency (atoms (createBond bid i j s))"
proof -
  note b = bondCandidate_Some [OF c]
  from within_valency_nth [OF w b(1)] b(5)
  have 1: "within_valency ((atoms s)[i := (atoms s ! i)\<lparr>currentBonds := currentBonds (atoms s ! i) + 1\<rparr>])"
    by (intro within_valency_update [OF w]) simp_all
  from within_valency_nth [OF w b(2)] b(6)
  have "within_valency ((atoms s)[i := (atoms s ! i)\<lparr>currentBonds := currentBonds (atoms s ! i) + 1\<rparr>,
           j := (atoms s ! j)\<lparr>currentBonds := currentBonds (atoms s ! j) + 1\<rparr>])"
    by (intro within_valency_update [OF 1]) simp_all
  then show ?thesis
    by (simp add: createBond_def Let_def)
qed

lemma within_valency_bondAttempt:
  assumes "within_valency (atoms s)"
  shows "within_valency (atoms (bondAttempt bid s))"
proof (cases "bondCandidate s")
  case None
  with assms show ?thesis by (simp add: bondAttempt_def)
next
  case (Some p)
  obtain i j where p: "p = (i, j)" by (cases p)
  with Some assms have "within_valency (atoms (createBond bid i j s))"
    by (simp add: within_valency_createBond)
  then show ?thesis
    using Some p by (simp add: bondAttempt_def checkMolecules_fields within_valency_filter)
qed

lemma within_valency_update_tick:
  assumes "within_valency (atoms s)"
  shows "within_valency (atoms (update i s))"
proof -
  have "within_valency (atoms (beforeBond i s))"
    using assms within_valency_cong [OF core_physics] by (simp add: beforeBond_def within_valency_spawning)
  then have "within_valency (atoms (bondAttempt (bond_uuid i) (beforeBond i s)))"
    by (rule within_valency_bondAttempt)
  then show ?thesis
    using within_valency_cong [OF core_render] by (simp add: update_def)
qed

lemma within_valency_decrementBonds:
  assumes "within_valency as"
  shows "within_valency (decrementBonds v as)"
proof (cases "findIndex (\<lambda>a. a_id a = v) as")
  case None
  with assms show ?thesis by (simp add: decrementBonds_def)
next
  case (Some k)
  from findIndex_Some [OF Some] have k: "k < length as" by simp
  from within_valency_nth [OF assms k]
  have "within_valency (as[k := (as ! k)\<lparr>currentBonds := max 0 (currentBonds (as ! k) - 1)\<rparr>])"
    by (intro within_valency_update [OF assms]) simp_all
  with Some show ?thesis by (simp add: decrementBonds_def)
qed

lemma undo_induct_rule:
  assumes hist: "\<And>s h. P s \<Longrightarrow> P (s\<lparr>bondHistory := h\<rparr>)"
    and bond: "\<And>s k. P s \<Longrightarrow> findIndex (\<lambda>b. b_id b = last (bondHistory s)) (bonds s) = Some k
                 \<Longrightarrow> bondHistory s \<noteq> [] \<Longrightarrow> last (bondHistory s) \<noteq> []
                 \<Longrightarrow> P (undoBond k (s\<lparr>bondHistory := butlast (bondHistory s)\<rparr>))"
  shows "P s \<Longrightarrow> P (undo s)"
proof (induction s rule: undo.induct)
  case (1 s)
  show ?case
  proof (cases "length (bondHistory s) > 0")
    case False
    with "1.prems" show ?thesis by (simp add: undo.simps [of s])
  next
    case True
    let ?s1 = "s\<lparr>bondHistory := butlast (bondHistory s)\<rparr>"
    have P1: "P ?s1" using "1.prems" by (rule hist)
    show ?thesis
    proof (cases "findIndex (\<lambda>b. b_id b = last (bondHistory s)) (bonds s)")
      case None
      with True have "undo s = undo ?s1" by (simp add: undo.simps [of s])
      moreover have "P (undo ?s1)"
        using True None P1 by (intro "1.IH"(1)) simp_all
      ultimately show ?thesis by simp
    next
      case (Some k)
      show ?thesis
      proof (cases "last (bondHistory s) = []")
        case e: True
        with True Some have "undo s = undo ?s1" by (simp add: undo.simps [of s])
        moreover have "P (undo ?s1)"
          using True Some e P1 by (intro "1.IH"(2)) simp_all
        ultimately show ?thesis by simp
      next
        case ne: False
        with True Some have "undo s = undoBond k ?s1" by (simp add: undo.simps [of s])
        moreover have "P (undoBond k ?s1)"
          using "1.prems" Some True ne by (intro bond) simp_all
        ultimately show ?thesis by simp
      qed
    qed
  qed
qed

lemma within_valency_undo:
  assumes "within_valency (atoms s)"
  shows "within_valency (atoms (undo s))"
  using assms
  by (rule undo_induct_rule [where P = "\<lambda>s. within_valency (atoms s)", rotated 2])
     (simp_all add: undoBond_def Let_def within_valency_decrementBonds)

lemma core_pointerDown: "map core (atoms (handlePointerDown x y s)) = map core (atoms s)"
  by (auto simp: handlePointerDown_def Let_def core_update core_def split: option.splits)

lemma core_update_base:
  assumes "map core cur = map core base" "core x = core (base ! k)"
  shows "map core (cur[k := x]) = map core base"
proof (cases "k < length cur")
  case True
  with assms have "core x = core (cur ! k)"
    by (metis core_nth core_length)
  then have "map core (cur[k := x]) = map core cur"
    by (rule core_update)
  with assms show ?thesis by simp
next
  case False
  then have "cur[k := x] = cur" by (simp add: list_update_beyond not_less)
  with assms show ?thesis by simp
qed

lemma core_release: "map core (atoms (release rx ry i s)) = map core (atoms s)"
proof -
  let ?atom = "(atoms s ! i)\<lparr>isDragging := False\<rparr>"
  let ?as1 = "(atoms s)[i := ?atom]"
  have 1: "map core ?as1 = map core (atoms s)"
    by (rule core_update) (simp add: core_def)
  have 2: "map core (?as1[i := ?atom\<lparr>a_vx := vx, a_vy := vy\<rparr>]) = map core (atoms s)" for vx vy
    using 1 by (rule core_update_base) (simp add: core_def)
  have n: "core ((?as1 ! n)\<lparr>a_vx := wx, a_vy := wy\<rparr>) = core (atoms s ! n)" for n wx wy
    by (cases "n = i"; cases "i < length (atoms s)")
       (simp_all add: core_def list_update_beyond not_less)
  have 3: "map core (?as1[i := ?atom\<lparr>a_vx := vx, a_vy := vy\<rparr>,
                          n := (?as1 ! n)\<lparr>a_vx := wx, a_vy := wy\<rparr>]) = map core (atoms s)" for vx vy wx wy n
    using 2 n by (rule core_update_base)
  show ?thesis
    using 1 2 3 by (simp add: release_def Let_def split: option.splits)
qed

lemma bonds_release: "bonds (release rx ry i s) = bonds s"
  by (simp add: release_def Let_def split: option.splits)

lemma bonds_pointerDown: "bonds (handlePointerDown x y s) = bonds s"
  by (simp add: handlePointerDown_def Let_def split: option.splits)

lemma bonds_pointerUp: "bonds (handlePointerUp rx ry s) = bonds s"
  by (simp add: handlePointerUp_def bonds_release split: option.splits)

lemma core_pointerUp: "map core (atoms (handlePointerUp rx ry s)) = map core (atoms s)"
  by (simp add: handlePointerUp_def core_release split: option.splits)

lemma within_valency_step:
  assumes "within_valency (atoms s)"
  shows "within_valency (atoms (step s e))"
proof (cases e)
  case (Tick i)
  with assms show ?thesis by (simp add: within_valency_update_tick)
next
  case (PointerDown x y)
  with assms within_valency_cong [OF core_pointerDown] show ?thesis by simp
next
  case (PointerMove x y)
  with assms show ?thesis by (simp add: handlePointerMove_def)
next
  case (PointerUp rx ry)
  with assms within_valency_cong [OF core_pointerUp] show ?thesis by simp
next
  case Undo
  with assms show ?thesis by (simp add: within_valency_undo)
next
  case Reset
  then show ?thesis by (simp add: reset_def within_valency_def)
qed

lemma within_valency_run:
  "within_valency (atoms s) \<Longrightarrow> within_valency (atoms (run s es))"
  by (induction es arbitrary: s) (simp_all add: within_valency_step)

section \<open>Claim C1: bonds are refused at full valency\<close>

lemma sqrt_less_iff: "0 \<le> c \<Longrightarrow> sqrt x < c \<longleftrightarrow> x < c\<^sup>2"
  by (metis real_sqrt_less_iff real_sqrt_abs abs_of_nonneg)

lemma round_double_values: "round_double (55/16) = 55/16"
  using round_double_dyadic [of 55 4] by simp

lemmas eval_defs = spawn_oxygen_def frame_def two_oxygens_def initial_def update_def beforeBond_def
  spawning_def spawn_due_def round_double_numeral round_double_zero round_double_values
  centred_values spawnAtom_def new_atom_def spawn_position_def spawn_types_def physics_def
  integrate_def forces_def forcesInner_def pairForce_def isBonded_def render_def bondAttempt_def
  bondCandidate_def bondable_def pairKey_def createBond_def checkMolecules_def neighborIds_def
  composition_def handlePointerDown_def hit_def handlePointerUp_def release_def near_def
  BOND_DISTANCE_def WORLD_FRICTION_def BOND_STRENGTH_def REPULSION_FORCE_def Let_def upt_rec
  sqrt_less_iff oxygen_def pair_loose_def pair_held_def pair_bonded_def

lemma run_append: "run s (es @ fs) = run (run s es) fs"
  by (induction es arbitrary: s) simp_all

lemma admissible_append: "admissible s (es @ fs) = (admissible s es \<and> admissible (run s es) fs)"
  by (induction es arbitrary: s) simp_all

lemma run_two_oxygens: "run initial two_oxygens = pair_loose"
  by (simp add: eval_defs)

lemma down_pair_loose: "handlePointerDown 28 100 pair_loose = pair_held"
  by (simp add: eval_defs)

lemma beforeBond_pair_held: "beforeBond (frame 4016 ''b1'') pair_held =
    pair_held\<lparr>atoms := [oxygen ''o1'' 100 0 True (3/20), oxygen ''o2'' 170 0 False (1/10)]\<rparr>"
  by (simp add: eval_defs)

lemma candidate_pair_held: "bondCandidate (beforeBond (frame 4016 ''b1'') pair_held) = Some (0, 1)"
  by (simp add: beforeBond_pair_held) (simp add: eval_defs)

lemma update_pair_held: "update (frame 4016 ''b1'') pair_held = pair_bonded"
  by (simp add: eval_defs)

lemma bondHistory_update_cases:
  "bondHistory (update i s) =
     (case bondCandidate (beforeBond i s) of
        None \<Rightarrow> bondHistory s
      | Some p \<Rightarrow> bondHistory s @ [bond_uuid i])"
proof -
  have "bondHistory (beforeBond i s) = bondHistory s"
    by (simp add: beforeBond_def physics_def spawning_def)
  then show ?thesis
    by (simp add: update_def render_def bondAttempt_def checkMolecules_fields createBond_def Let_def
        split: option.splits)
qed

text \<open>
  C1. No atom of a run ever holds more bonds than its valency, and a tick creates a bond
  (the history grows) only when the bond attempt found a dragger and a neighbour that
  both had a free valency before the bond was counted; when it finds none, the attempt
  changes nothing.
\<close>

theorem valency_never_exceeded:
  "within_valency (atoms (run initial es))
   \<and> (bondHistory (update i s) \<noteq> bondHistory s \<longrightarrow>
        (\<exists>d n. bondCandidate (beforeBond i s) = Some (d, n) \<and> d \<noteq> n
           \<and> draggedAtom (beforeBond i s) = Some (a_id (atoms (beforeBond i s) ! d))
           \<and> currentBonds (atoms (beforeBond i s) ! d)
                < valency (ATOM_DEFS (a_type (atoms (beforeBond i s) ! d)))
           \<and> currentBonds (atoms (beforeBond i s) ! n)
                < valency (ATOM_DEFS (a_type (atoms (beforeBond i s) ! n)))
           \<and> update i s = render (checkMolecules (createBond (bond_uuid i) d n (beforeBond i s)))
           \<and> length (bonds (createBond (bond_uuid i) d n (beforeBond i s)))
                = Suc (length (bonds (beforeBond i s)))))
   \<and> (bondCandidate (beforeBond i s) = None \<longrightarrow> update i s = render (beforeBond i s))"
proof -
  have 1: "within_valency (atoms (run initial es))"
    by (rule within_valency_run) (simp add: initial_def within_valency_def)
  have 2: "\<exists>d n. bondCandidate (beforeBond i s) = Some (d, n) \<and> d \<noteq> n
           \<and> draggedAtom (beforeBond i s) = Some (a_id (atoms (beforeBond i s) ! d))
           \<and> currentBonds (atoms (beforeBond i s) ! d)
                < valency (ATOM_DEFS (a_type (atoms (beforeBond i s) ! d)))
           \<and> currentBonds (atoms (beforeBond i s) ! n)
                < valency (ATOM_DEFS (a_type (atoms (beforeBond i s) ! n)))
           \<and> update i s = render (checkMolecules (createBond (bond_uuid i) d n (beforeBond i s)))
           \<and> length (bonds (createBond (bond_uuid i) d n (beforeBond i s)))
                = Suc (length (bonds (beforeBond i s)))"
    if grow: "bondHistory (update i s) \<noteq> bondHistory s"
  proof -
    from grow obtain p where "bondCandidate (beforeBond i s) = Some p"
      by (cases "bondCandidate (beforeBond i s)") (simp_all add: bondHistory_update_cases)
    then obtain d n where c: "bondCandidate (beforeBond i s) = Some (d, n)"
      by (cases p) simp
    note b = bondCandidate_Some [OF c]
    have "d \<noteq> n" using b(3) by auto
    moreover have "update i s = render (checkMolecules (createBond (bond_uuid i) d n (beforeBond i s)))"
      using c by (simp add: update_def bondAttempt_def)
    moreover have "length (bonds (createBond (bond_uuid i) d n (beforeBond i s)))
                = Suc (length (bonds (beforeBond i s)))"
      by (simp add: createBond_def Let_def)
    ultimately show ?thesis
      using c b(4) b(5) b(6) by blast
  qed
  have 3: "update i s = render (beforeBond i s)" if "bondCandidate (beforeBond i s) = None"
    using that by (simp add: update_def bondAttempt_def)
  from 1 2 3 show ?thesis
    by blast
qed

theorem valency_never_exceeded_witness:
  "within_valency (atoms pair_bonded)
   \<and> bondHistory (update (frame 4016 ''b1'') pair_held) \<noteq> bondHistory pair_held
   \<and> currentBonds (atoms (beforeBond (frame 4016 ''b1'') pair_held) ! 0)
        < valency (ATOM_DEFS (a_type (atoms (beforeBond (frame 4016 ''b1'') pair_held) ! 0)))
   \<and> currentBonds (atoms (beforeBond (frame 4016 ''b1'') pair_held) ! 1)
        < valency (ATOM_DEFS (a_type (atoms (beforeBond (frame 4016 ''b1'') pair_held) ! 1)))
   \<and> bondCandidate (beforeBond (frame 4032 ''b2'') pair_bonded) = None
   \<and> update (frame 4032 ''b2'') pair_bonded = render (beforeBond (frame 4032 ''b2'') pair_bonded)"
proof -
  have r: "run initial (two_oxygens @ [PointerDown 28 100, Tick (frame 4016 ''b1'')]) = pair_bonded"
    by (simp add: run_append run_two_oxygens down_pair_loose update_pair_held)
  have g: "bondHistory (update (frame 4016 ''b1'') pair_held) \<noteq> bondHistory pair_held"
    using update_pair_held by (simp add: pair_bonded_def pair_held_def)
  have n: "bondCandidate (beforeBond (frame 4032 ''b2'') pair_bonded) = None"
    by (simp add: eval_defs)
  note t = valency_never_exceeded [of "two_oxygens @ [PointerDown 28 100, Tick (frame 4016 ''b1'')]"
      "frame 4016 ''b1''" pair_held]
  from t r have 1: "within_valency (atoms pair_bonded)"
    by simp
  from t g obtain d n where c: "bondCandidate (beforeBond (frame 4016 ''b1'') pair_held) = Some (d, n)"
    and free: "currentBonds (atoms (beforeBond (frame 4016 ''b1'') pair_held) ! d)
                < valency (ATOM_DEFS (a_type (atoms (beforeBond (frame 4016 ''b1'') pair_held) ! d)))"
      "currentBonds (atoms (beforeBond (frame 4016 ''b1'') pair_held) ! n)
                < valency (ATOM_DEFS (a_type (atoms (beforeBond (frame 4016 ''b1'') pair_held) ! n)))"
    by blast
  from c candidate_pair_held have dn: "d = 0" "n = 1"
    by simp_all
  from valency_never_exceeded [of "[]" "frame 4032 ''b2''" pair_bonded] n
  have 2: "update (frame 4032 ''b2'') pair_bonded = render (beforeBond (frame 4032 ''b2'') pair_bonded)"
    by blast
  from 1 g free [unfolded dn] n 2 show ?thesis
    by blast
qed

section \<open>Claim C8: bondedAtomIds is never maintained\<close>

lemma ids_unset_core:
  "ids_unset as \<longleftrightarrow> (\<forall>c \<in> set (map core as). snd (snd (snd c)) = [])"
  by (simp add: ids_unset_def core_def)

lemma ids_unset_cong: "map core as' = map core as \<Longrightarrow> ids_unset as' = ids_unset as"
  by (simp only: ids_unset_core)

lemma ids_unset_update:
  assumes "ids_unset as" "bondedAtomIds x = []"
  shows "ids_unset (as[k := x])"
proof -
  have "set (as[k := x]) \<subseteq> insert x (set as)"
    by (rule set_update_subset_insert)
  with assms show ?thesis
    unfolding ids_unset_def by blast
qed

lemma ids_unset_nth: "ids_unset as \<Longrightarrow> k < length as \<Longrightarrow> bondedAtomIds (as ! k) = []"
  by (simp add: ids_unset_def)

lemma ids_unset_spawning: "ids_unset (atoms s) \<Longrightarrow> ids_unset (atoms (spawning i s))"
  by (auto simp: spawning_def spawnAtom_def ids_unset_def new_atom_fields Let_def split: option.splits)

lemma ids_unset_bondAttempt:
  assumes "ids_unset (atoms s)"
  shows "ids_unset (atoms (bondAttempt bid s))"
proof (cases "bondCandidate s")
  case None
  with assms show ?thesis by (simp add: bondAttempt_def)
next
  case (Some p)
  obtain i j where p: "p = (i, j)" by (cases p)
  note b = bondCandidate_Some [OF Some [unfolded p]]
  have "ids_unset ((atoms s)[i := (atoms s ! i)\<lparr>currentBonds := currentBonds (atoms s ! i) + 1\<rparr>,
           j := (atoms s ! j)\<lparr>currentBonds := currentBonds (atoms s ! j) + 1\<rparr>])"
    using assms b(1) b(2) by (intro ids_unset_update) (simp_all add: ids_unset_nth)
  then have "ids_unset (atoms (createBond bid i j s))"
    by (simp add: createBond_def Let_def)
  then show ?thesis
    using Some p by (simp add: bondAttempt_def checkMolecules_fields ids_unset_def)
qed

lemma ids_unset_decrementBonds:
  assumes "ids_unset as"
  shows "ids_unset (decrementBonds v as)"
proof (cases "findIndex (\<lambda>a. a_id a = v) as")
  case None
  with assms show ?thesis by (simp add: decrementBonds_def)
next
  case (Some k)
  from findIndex_Some [OF Some] have "k < length as" by simp
  with assms have "ids_unset (as[k := (as ! k)\<lparr>currentBonds := max 0 (currentBonds (as ! k) - 1)\<rparr>])"
    by (intro ids_unset_update) (simp_all add: ids_unset_nth)
  with Some show ?thesis by (simp add: decrementBonds_def)
qed

lemma ids_unset_undo: "ids_unset (atoms s) \<Longrightarrow> ids_unset (atoms (undo s))"
  by (rule undo_induct_rule [where P = "\<lambda>s. ids_unset (atoms s)", rotated 2])
     (simp_all add: undoBond_def Let_def ids_unset_decrementBonds)

lemma ids_unset_step:
  assumes "ids_unset (atoms s)"
  shows "ids_unset (atoms (step s e))"
proof (cases e)
  case (Tick i)
  have "ids_unset (atoms (beforeBond i s))"
    using assms ids_unset_cong [OF core_physics] by (simp add: beforeBond_def ids_unset_spawning)
  then have "ids_unset (atoms (bondAttempt (bond_uuid i) (beforeBond i s)))"
    by (rule ids_unset_bondAttempt)
  then show ?thesis
    using Tick ids_unset_cong [OF core_render] by (simp add: update_def)
next
  case (PointerDown x y)
  with assms ids_unset_cong [OF core_pointerDown] show ?thesis by simp
next
  case (PointerMove x y)
  with assms show ?thesis by (simp add: handlePointerMove_def)
next
  case (PointerUp rx ry)
  with assms ids_unset_cong [OF core_pointerUp] show ?thesis by simp
next
  case Undo
  with assms show ?thesis by (simp add: ids_unset_undo)
next
  case Reset
  then show ?thesis by (simp add: reset_def ids_unset_def)
qed

lemma ids_unset_run: "ids_unset (atoms s) \<Longrightarrow> ids_unset (atoms (run s es))"
  by (induction es arbitrary: s) (simp_all add: ids_unset_step)

lemma run_pair_bonded:
  "run initial (two_oxygens @ [PointerDown 28 100, Tick (frame 4016 ''b1'')]) = pair_bonded"
  by (simp add: run_append run_two_oxygens down_pair_loose update_pair_held)

text \<open>
  C8, as the code has it. \<open>bondedAtomIds\<close> is created empty by the spawner and no
  operation assigns to it: in every state of every run it is the empty list, for every
  atom, whatever bonds the atom has.
\<close>

theorem bondedAtomIds_never_filled:
  "\<forall>a \<in> set (atoms (run initial es)). bondedAtomIds a = []"
proof -
  have "ids_unset (atoms (run initial es))"
    by (rule ids_unset_run) (simp add: initial_def ids_unset_def)
  then show ?thesis
    by (simp add: ids_unset_def)
qed

theorem bondedAtomIds_never_filled_witness:
  "oxygen ''o1'' 100 1 True (3/20) \<in> set (atoms pair_bonded)
   \<and> bondedAtomIds (oxygen ''o1'' 100 1 True (3/20)) = []
   \<and> isBonded (bonds pair_bonded) ''o1'' ''o2''"
proof -
  have m: "oxygen ''o1'' 100 1 True (3/20) \<in> set (atoms pair_bonded)"
    by (simp add: pair_bonded_def)
  from bondedAtomIds_never_filled [of "two_oxygens @ [PointerDown 28 100, Tick (frame 4016 ''b1'')]"] m
  have "bondedAtomIds (oxygen ''o1'' 100 1 True (3/20)) = []"
    unfolding run_pair_bonded by blast
  moreover have "isBonded (bonds pair_bonded) ''o1'' ''o2''"
    by (simp add: pair_bonded_def isBonded_def)
  ultimately show ?thesis
    using m by simp
qed

text \<open>
  The claim itself fails as soon as a bond exists: after the first bond of the two
  oxygen atoms, the list of \<open>o1\<close> is empty although a bond joins \<open>o1\<close> and \<open>o2\<close>.
\<close>

theorem bondedAtomIds_counterexample:
  "\<not> bonded_ids_consistent
       (run initial (two_oxygens @ [PointerDown 28 100, Tick (frame 4016 ''b1'')]))"
  unfolding run_pair_bonded
  by (simp add: bonded_ids_consistent_def pair_bonded_def oxygen_def isBonded_def)

section \<open>Claim C10: the drag reference does not outlive its atom\<close>

lemma toRemove_pair_double: "toRemove pair_double = [''o1'', ''o2'']"
  by (simp add: toRemove_def pair_double_def oxygen_def neighborIds_def)

lemma createBond_pair_regrabbed:
  "createBond ''b3'' 0 1 (beforeBond (frame 4048 ''b3'') pair_regrabbed) = pair_double"
  by (simp add: eval_defs pair_regrabbed_def pair_double_def)

lemma candidate_pair_regrabbed:
  "bondCandidate (beforeBond (frame 4048 ''b3'') pair_regrabbed) = Some (0, 1)"
  by (simp add: eval_defs pair_regrabbed_def)

text \<open>
  C10. When the scan removes the atom that is being dragged, it clears the drag
  reference in the same step, the atom is gone from the store, and a bond attempt on
  the result changes nothing. A drag reference that survives a scan names an atom the
  scan did not remove. Whenever a bond attempt selects atoms, they are positions of the
  current store, the first being the atom the drag reference names.
\<close>

theorem drag_reference_cleared:
  "(draggedAtom s = Some d \<and> d \<noteq> [] \<and> d \<in> set (toRemove s) \<longrightarrow>
       draggedAtom (checkMolecules s) = None
     \<and> d \<notin> set (map a_id (atoms (checkMolecules s)))
     \<and> bondAttempt b (checkMolecules s) = checkMolecules s)
   \<and> (draggedAtom (checkMolecules s) = Some d \<and> d \<noteq> [] \<longrightarrow>
         draggedAtom s = Some d \<and> d \<notin> set (toRemove s)
       \<and> (d \<in> set (map a_id (atoms s)) \<longrightarrow> d \<in> set (map a_id (atoms (checkMolecules s)))))
   \<and> (bondCandidate s = Some (i, j) \<longrightarrow>
         i < length (atoms s) \<and> j < length (atoms s)
       \<and> draggedAtom s = Some (a_id (atoms s ! i)))"
proof -
  have 1: "draggedAtom (checkMolecules s) = None
     \<and> d \<notin> set (map a_id (atoms (checkMolecules s)))
     \<and> bondAttempt b (checkMolecules s) = checkMolecules s"
    if "draggedAtom s = Some d \<and> d \<noteq> [] \<and> d \<in> set (toRemove s)"
  proof -
    from that have n: "draggedAtom (checkMolecules s) = None"
      by (simp add: checkMolecules_fields)
    then have "bondCandidate (checkMolecules s) = None"
      by (simp add: bondCandidate_def)
    then have "bondAttempt b (checkMolecules s) = checkMolecules s"
      by (simp add: bondAttempt_def)
    moreover from that have "d \<notin> set (map a_id (atoms (checkMolecules s)))"
      by (auto simp: checkMolecules_fields)
    ultimately show ?thesis
      using n by simp
  qed
  have 2: "draggedAtom s = Some d \<and> d \<notin> set (toRemove s)
       \<and> (d \<in> set (map a_id (atoms s)) \<longrightarrow> d \<in> set (map a_id (atoms (checkMolecules s))))"
    if "draggedAtom (checkMolecules s) = Some d \<and> d \<noteq> []"
  proof -
    from that have "draggedAtom s = Some d \<and> d \<notin> set (toRemove s)"
      by (cases "draggedAtom s") (auto simp: checkMolecules_fields split: if_splits)
    then show ?thesis
      by (auto simp: checkMolecules_fields)
  qed
  have 3: "i < length (atoms s) \<and> j < length (atoms s) \<and> draggedAtom s = Some (a_id (atoms s ! i))"
    if "bondCandidate s = Some (i, j)"
    using bondCandidate_Some [OF that] by simp
  from 1 2 3 show ?thesis
    by blast
qed

theorem drag_reference_cleared_witness:
  "draggedAtom pair_double = Some ''o1'' \<and> ''o1'' \<in> set (toRemove pair_double)
   \<and> draggedAtom (checkMolecules pair_double) = None
   \<and> bondAttempt ''b4'' (checkMolecules pair_double) = checkMolecules pair_double
   \<and> draggedAtom (checkMolecules pair_bonded) = Some ''o1''
   \<and> ''o1'' \<in> set (map a_id (atoms (checkMolecules pair_bonded)))
   \<and> bondCandidate (beforeBond (frame 4048 ''b3'') pair_regrabbed) = Some (0, 1)"
proof -
  have d: "draggedAtom pair_double = Some ''o1'' \<and> ''o1'' \<noteq> [] \<and> ''o1'' \<in> set (toRemove pair_double)"
    by (simp add: toRemove_pair_double) (simp add: pair_double_def)
  have k: "draggedAtom (checkMolecules pair_bonded) = Some ''o1'' \<and> ''o1'' \<noteq> []"
    by (simp add: checkMolecules_fields toRemove_def pair_bonded_def oxygen_def neighborIds_def)
  have m: "''o1'' \<in> set (map a_id (atoms pair_bonded))"
    by (simp add: pair_bonded_def oxygen_def)
  from drag_reference_cleared [of pair_double "''o1''" "''b4''" 0 1] d
  have "draggedAtom (checkMolecules pair_double) = None
     \<and> bondAttempt ''b4'' (checkMolecules pair_double) = checkMolecules pair_double"
    by blast
  moreover from drag_reference_cleared [of pair_bonded "''o1''" "''b4''" 0 1] k m
  have "''o1'' \<in> set (map a_id (atoms (checkMolecules pair_bonded)))"
    by blast
  moreover from drag_reference_cleared [of "beforeBond (frame 4048 ''b3'') pair_regrabbed" "''o1''" "''b4''" 0 1]
    candidate_pair_regrabbed
  have "(0::nat) < length (atoms (beforeBond (frame 4048 ''b3'') pair_regrabbed))"
    by blast
  ultimately show ?thesis
    using d k candidate_pair_regrabbed by simp
qed

section \<open>Claim C5: undo reverses the newest bond that still exists\<close>

lemma undo_empty: "bondHistory s = [] \<Longrightarrow> undo s = s"
  by (simp add: undo.simps [of s])

lemma undo_skip:
  assumes "bondHistory s = h @ [k]" "k \<notin> set (map b_id (bonds s)) \<or> k = []"
  shows "undo s = undo (s\<lparr>bondHistory := h\<rparr>)"
proof (cases "findIndex (\<lambda>b. b_id b = k) (bonds s)")
  case None
  with assms(1) show ?thesis by (simp add: undo.simps [of s])
next
  case (Some n)
  from findIndex_Some [OF Some] have "k \<in> set (map b_id (bonds s))"
    by (metis length_map nth_map nth_mem)
  with assms(2) have "k = []" by simp
  with assms(1) Some show ?thesis by (simp add: undo.simps [of s])
qed

lemma undo_hit:
  assumes "bondHistory s = h @ [k]" "findIndex (\<lambda>b. b_id b = k) (bonds s) = Some n" "k \<noteq> []"
  shows "undo s = undoBond n (s\<lparr>bondHistory := h\<rparr>)"
  using assms by (simp add: undo.simps [of s])

lemma undo_exhausted:
  "bondHistory s = h \<Longrightarrow> \<forall>x \<in> set h. x \<notin> set (map b_id (bonds s)) \<Longrightarrow>
     undo s = s\<lparr>bondHistory := []\<rparr>"
proof (induction h arbitrary: s rule: rev_induct)
  case Nil
  then show ?case by (simp add: undo_empty)
next
  case (snoc k h)
  from snoc.prems have hk: "bondHistory s = h @ [k]"
    and stale: "k \<notin> set (map b_id (bonds s)) \<or> k = []"
    and rest: "\<forall>x \<in> set h. x \<notin> set (map b_id (bonds (s\<lparr>bondHistory := h\<rparr>)))"
    by simp_all
  have "undo s = undo (s\<lparr>bondHistory := h\<rparr>)"
    using hk stale by (rule undo_skip)
  also have "\<dots> = (s\<lparr>bondHistory := h\<rparr>)\<lparr>bondHistory := []\<rparr>"
    using rest by (intro snoc.IH) simp
  finally show ?case by simp
qed

lemma undo_resolves:
  "bondHistory s = older @ [k] @ newer \<Longrightarrow> \<forall>x \<in> set newer. x \<notin> set (map b_id (bonds s)) \<Longrightarrow>
   findIndex (\<lambda>b. b_id b = k) (bonds s) = Some n \<Longrightarrow> k \<noteq> [] \<Longrightarrow>
     undo s = undoBond n (s\<lparr>bondHistory := older\<rparr>)"
proof (induction newer arbitrary: s rule: rev_induct)
  case Nil
  then show ?case by (simp add: undo_hit)
next
  case (snoc x newer)
  let ?s1 = "s\<lparr>bondHistory := older @ [k] @ newer\<rparr>"
  from snoc.prems have hk: "bondHistory s = (older @ [k] @ newer) @ [x]"
    and stale: "x \<notin> set (map b_id (bonds s)) \<or> x = []"
    and rest: "\<forall>x \<in> set newer. x \<notin> set (map b_id (bonds ?s1))"
    and n: "findIndex (\<lambda>b. b_id b = k) (bonds ?s1) = Some n"
    by simp_all
  have "undo s = undo ?s1"
    using hk stale by (rule undo_skip)
  also have "\<dots> = undoBond n (?s1\<lparr>bondHistory := older\<rparr>)"
    using rest n snoc.prems(4) by (intro snoc.IH) simp
  finally show ?case by simp
qed

lemma findIndex_member:
  "k \<in> set (map f xs) \<Longrightarrow> \<exists>n. findIndex (\<lambda>x. f x = k) xs = Some n"
  by (cases "findIndex (\<lambda>x. f x = k) xs") (auto simp: findIndex_None)

lemma decrementBonds_distinct:
  assumes "distinct (map a_id as)"
  shows "decrementBonds v as = map (\<lambda>a. if a_id a = v then released a else a) as"
proof (cases "findIndex (\<lambda>a. a_id a = v) as")
  case None
  then have "\<forall>a \<in> set as. a_id a \<noteq> v"
    by (simp add: findIndex_None)
  then have "map (\<lambda>a. if a_id a = v then released a else a) as = as"
    by (intro map_idI) simp
  with None show ?thesis by (simp add: decrementBonds_def)
next
  case (Some k)
  from findIndex_Some [OF Some] have k: "k < length as" "a_id (as ! k) = v"
    by simp_all
  have "as[k := released (as ! k)] = map (\<lambda>a. if a_id a = v then released a else a) as"
  proof (rule nth_equalityI)
    show "length (as[k := released (as ! k)]) = length (map (\<lambda>a. if a_id a = v then released a else a) as)"
      by simp
  next
    fix i
    assume "i < length (as[k := released (as ! k)])"
    then have i: "i < length as" by simp
    show "as[k := released (as ! k)] ! i = map (\<lambda>a. if a_id a = v then released a else a) as ! i"
    proof (cases "i = k")
      case True
      with k show ?thesis by simp
    next
      case False
      with assms i k have "a_id (as ! i) \<noteq> v"
        by (metis distinct_conv_nth length_map nth_map)
      with False i show ?thesis by simp
    qed
  qed
  with Some show ?thesis by (simp add: decrementBonds_def released_def)
qed

lemma decrementBonds_both:
  assumes "distinct (map a_id as)" "v \<noteq> w"
  shows "decrementBonds w (decrementBonds v as)
           = map (\<lambda>a. if a_id a = v \<or> a_id a = w then released a else a) as"
proof -
  have ids: "map a_id (map (\<lambda>a. if a_id a = v then released a else a) as) = map a_id as"
    by (simp add: released_def o_def if_distrib cong: if_cong)
  have d2: "distinct (map a_id (map (\<lambda>a. if a_id a = v then released a else a) as))"
    using assms(1) by (simp only: ids)
  have "decrementBonds w (decrementBonds v as)
      = map (\<lambda>a. if a_id a = w then released a else a) (map (\<lambda>a. if a_id a = v then released a else a) as)"
    by (simp only: decrementBonds_distinct [OF assms(1)] decrementBonds_distinct [OF d2])
  also have "\<dots> = map (\<lambda>a. if a_id a = v \<or> a_id a = w then released a else a) as"
    using assms(2) by (auto simp: released_def)
  finally show ?thesis .
qed

text \<open>
  C5. Every recorded identifier being a non-empty string (as \<open>uuid()\<close> produces them):
  when no recorded bond exists any more, \<open>undo\<close> only empties the history; otherwise it
  drops the stale identifiers that are newer than the newest existing one, removes that
  one bond record (the first with the identifier), lowers \<open>currentBonds\<close> of its two
  endpoint atoms by one, not below zero, and leaves the older history in place.
\<close>

theorem undo_newest_existing_bond:
  assumes "[] \<notin> set (bondHistory s)"
  shows "((\<forall>x \<in> set (bondHistory s). x \<notin> set (map b_id (bonds s))) \<longrightarrow>
            undo s = s\<lparr>bondHistory := []\<rparr>)
       \<and> (bondHistory s = older @ [k] @ newer \<and> k \<in> set (map b_id (bonds s))
            \<and> (\<forall>x \<in> set newer. x \<notin> set (map b_id (bonds s))) \<longrightarrow>
            (\<exists>n. n < length (bonds s) \<and> b_id (bonds s ! n) = k \<and> (\<forall>m<n. b_id (bonds s ! m) \<noteq> k)
               \<and> undo s = s\<lparr>bondHistory := older,
                     atoms := decrementBonds (atom2Id (bonds s ! n))
                                (decrementBonds (atom1Id (bonds s ! n)) (atoms s)),
                     bonds := take n (bonds s) @ drop (Suc n) (bonds s)\<rparr>
               \<and> length (bonds (undo s)) + 1 = length (bonds s)
               \<and> (distinct (map a_id (atoms s)) \<and> atom1Id (bonds s ! n) \<noteq> atom2Id (bonds s ! n) \<longrightarrow>
                    atoms (undo s) =
                      map (\<lambda>a. if a_id a = atom1Id (bonds s ! n) \<or> a_id a = atom2Id (bonds s ! n)
                                then a\<lparr>currentBonds := max 0 (currentBonds a - 1)\<rparr> else a)
                        (atoms s))))"
proof -
  have 1: "undo s = s\<lparr>bondHistory := []\<rparr>"
    if "\<forall>x \<in> set (bondHistory s). x \<notin> set (map b_id (bonds s))"
    using refl that by (rule undo_exhausted)
  have 2: "\<exists>n. n < length (bonds s) \<and> b_id (bonds s ! n) = k \<and> (\<forall>m<n. b_id (bonds s ! m) \<noteq> k)
               \<and> undo s = s\<lparr>bondHistory := older,
                     atoms := decrementBonds (atom2Id (bonds s ! n))
                                (decrementBonds (atom1Id (bonds s ! n)) (atoms s)),
                     bonds := take n (bonds s) @ drop (Suc n) (bonds s)\<rparr>
               \<and> length (bonds (undo s)) + 1 = length (bonds s)
               \<and> (distinct (map a_id (atoms s)) \<and> atom1Id (bonds s ! n) \<noteq> atom2Id (bonds s ! n) \<longrightarrow>
                    atoms (undo s) =
                      map (\<lambda>a. if a_id a = atom1Id (bonds s ! n) \<or> a_id a = atom2Id (bonds s ! n)
                                then a\<lparr>currentBonds := max 0 (currentBonds a - 1)\<rparr> else a)
                        (atoms s))"
    if h: "bondHistory s = older @ [k] @ newer \<and> k \<in> set (map b_id (bonds s))
            \<and> (\<forall>x \<in> set newer. x \<notin> set (map b_id (bonds s)))"
  proof -
    from h have "k \<in> set (map b_id (bonds s))" by simp
    from findIndex_member [OF this] obtain n where n: "findIndex (\<lambda>b. b_id b = k) (bonds s) = Some n"
      by blast
    from h assms have ne: "k \<noteq> []" by auto
    note f = findIndex_Some [OF n]
    from h have hk: "bondHistory s = older @ [k] @ newer"
      and stale: "\<forall>x \<in> set newer. x \<notin> set (map b_id (bonds s))"
      by simp_all
    have u: "undo s = undoBond n (s\<lparr>bondHistory := older\<rparr>)"
      using hk stale n ne by (rule undo_resolves)
    then have e: "undo s = s\<lparr>bondHistory := older,
                     atoms := decrementBonds (atom2Id (bonds s ! n))
                                (decrementBonds (atom1Id (bonds s ! n)) (atoms s)),
                     bonds := take n (bonds s) @ drop (Suc n) (bonds s)\<rparr>"
      by (simp add: undoBond_def Let_def)
    have l: "length (bonds (undo s)) + 1 = length (bonds s)"
      using f by (auto simp: e)
    have m: "atoms (undo s) =
                      map (\<lambda>a. if a_id a = atom1Id (bonds s ! n) \<or> a_id a = atom2Id (bonds s ! n)
                                then a\<lparr>currentBonds := max 0 (currentBonds a - 1)\<rparr> else a)
                        (atoms s)"
      if "distinct (map a_id (atoms s)) \<and> atom1Id (bonds s ! n) \<noteq> atom2Id (bonds s ! n)"
      using that by (simp add: e decrementBonds_both released_def)
    from f e l m show ?thesis
      by blast
  qed
  from 1 2 show ?thesis
    by blast
qed

theorem undo_newest_existing_bond_witness:
  "undo pair_history =
     pair_bonded\<lparr>bondHistory := [''b0''], bonds := [],
       atoms := [oxygen ''o1'' 100 0 True (3/20), oxygen ''o2'' 170 0 False (1/10)]\<rparr>
   \<and> undo (undo pair_history) = (undo pair_history)\<lparr>bondHistory := []\<rparr>"
proof -
  let ?s = pair_history
  have h: "[] \<notin> set (bondHistory ?s)"
    by (simp add: pair_history_def)
  have c: "bondHistory ?s = [''b0''] @ [''b1''] @ [''b9''] \<and> ''b1'' \<in> set (map b_id (bonds ?s))
            \<and> (\<forall>x \<in> set [''b9'']. x \<notin> set (map b_id (bonds ?s)))"
    by (simp add: pair_history_def pair_bonded_def)
  have d: "distinct (map a_id (atoms ?s))"
    by (simp add: pair_history_def pair_bonded_def oxygen_def)
  from undo_newest_existing_bond [OF h, of "[''b0'']" "''b1''" "[''b9'']"] c
  obtain n where n: "n < length (bonds ?s)"
    and u: "undo ?s = ?s\<lparr>bondHistory := [''b0''],
                     atoms := decrementBonds (atom2Id (bonds ?s ! n))
                                (decrementBonds (atom1Id (bonds ?s ! n)) (atoms ?s)),
                     bonds := take n (bonds ?s) @ drop (Suc n) (bonds ?s)\<rparr>"
    by blast
  from n have n0: "n = 0"
    by (simp add: pair_history_def pair_bonded_def)
  have 1: "undo ?s = pair_bonded\<lparr>bondHistory := [''b0''], bonds := [],
       atoms := [oxygen ''o1'' 100 0 True (3/20), oxygen ''o2'' 170 0 False (1/10)]\<rparr>"
    unfolding u n0
    by (simp add: pair_history_def pair_bonded_def oxygen_def decrementBonds_def)
  have h2: "[] \<notin> set (bondHistory (undo ?s))"
    by (simp add: 1)
  have e: "\<forall>x \<in> set (bondHistory (undo ?s)). x \<notin> set (map b_id (bonds (undo ?s)))"
    by (simp add: 1)
  from undo_newest_existing_bond [OF h2, of "[]" "''b0''" "[]"] e
  have "undo (undo ?s) = (undo ?s)\<lparr>bondHistory := []\<rparr>"
    by blast
  with 1 show ?thesis
    by simp
qed

section \<open>Claim C4: one bond per pair and gesture\<close>

lemma pairKey_commute: "pairKey a b = pairKey b a"
  by (auto simp: pairKey_def)

lemma session_beforeBond: "dragSessionBondedPairs (beforeBond i s) = dragSessionBondedPairs s"
  by (simp add: beforeBond_def physics_def spawning_def)

lemma session_update:
  "dragSessionBondedPairs (update i s) =
     (case bondCandidate (beforeBond i s) of
        None \<Rightarrow> dragSessionBondedPairs s
      | Some (d, n) \<Rightarrow>
          insert (pairKey (a_id (atoms (beforeBond i s) ! d)) (a_id (atoms (beforeBond i s) ! n)))
            (dragSessionBondedPairs s))"
  by (simp add: update_def render_def bondAttempt_def checkMolecules_fields createBond_def Let_def
      session_beforeBond split: option.splits)

lemma session_undo: "dragSessionBondedPairs (undo s) = dragSessionBondedPairs s"
proof -
  have "dragSessionBondedPairs s = X \<Longrightarrow> dragSessionBondedPairs (undo s) = X" for X
    by (rule undo_induct_rule [where P = "\<lambda>s. dragSessionBondedPairs s = X", rotated 2])
       (simp_all add: undoBond_def Let_def)
  then show ?thesis by simp
qed

lemma session_pointerUp: "dragSessionBondedPairs (handlePointerUp rx ry s) = dragSessionBondedPairs s"
  by (simp add: handlePointerUp_def release_def Let_def split: option.splits)

lemma session_grows:
  "in_gesture e \<Longrightarrow> dragSessionBondedPairs s \<subseteq> dragSessionBondedPairs (step s e)"
  by (cases e)
     (auto simp: session_update session_undo session_pointerUp handlePointerMove_def split: option.splits)

lemma bondCreated_keyed:
  assumes "(p, q) \<in> set (bondCreated s e)"
  shows "pairKey p q \<notin> dragSessionBondedPairs s \<and> pairKey p q \<in> dragSessionBondedPairs (step s e)
         \<and> bondCreated s e = [(p, q)]"
proof (cases e)
  case (Tick i)
  with assms obtain dn where "bondCandidate (beforeBond i s) = Some dn"
    by (cases "bondCandidate (beforeBond i s)") simp_all
  then obtain d n where c: "bondCandidate (beforeBond i s) = Some (d, n)"
    by (cases dn) simp
  with assms Tick have p: "p = a_id (atoms (beforeBond i s) ! d)"
    and q: "q = a_id (atoms (beforeBond i s) ! n)"
    by simp_all
  from bondCandidate_Some(7) [OF c] have "pairKey p q \<notin> dragSessionBondedPairs s"
    by (simp add: p q session_beforeBond)
  moreover have "pairKey p q \<in> dragSessionBondedPairs (step s e)"
    using Tick c by (simp add: session_update p q)
  moreover have "bondCreated s e = [(p, q)]"
    using Tick c by (simp add: p q)
  ultimately show ?thesis by simp
qed (use assms in simp_all)

lemma joins_key: "joins a b (p, q) \<Longrightarrow> pairKey p q = pairKey a b"
  using pairKey_commute by (auto simp: joins_def)

lemma gesture_bound:
  "list_all in_gesture es \<Longrightarrow>
     length (filter (joins a b) (bondsCreated s es))
       \<le> (if pairKey a b \<in> dragSessionBondedPairs s then 0 else 1)"
proof (induction es arbitrary: s)
  case Nil
  then show ?case by simp
next
  case (Cons e es)
  then have e: "in_gesture e" and es: "list_all in_gesture es"
    by simp_all
  note IH = Cons.IH [OF es, of "step s e"]
  note mono = session_grows [OF e, of s]
  show ?case
  proof (cases "filter (joins a b) (bondCreated s e) = []")
    case True
    with IH mono show ?thesis
      by (auto split: if_splits)
  next
    case False
    then obtain p q where pq: "(p, q) \<in> set (bondCreated s e)" "joins a b (p, q)"
      by (metis filter_False surj_pair)
    from bondCreated_keyed [OF pq(1)] joins_key [OF pq(2)]
    have k: "pairKey a b \<notin> dragSessionBondedPairs s" "pairKey a b \<in> dragSessionBondedPairs (step s e)"
      and one: "bondCreated s e = [(p, q)]"
      by simp_all
    from IH k(2) have "filter (joins a b) (bondsCreated (step s e) es) = []"
      by simp
    with k(1) one show ?thesis
      by simp
  qed
qed

lemma session_pointerDown:
  "findIndex (hit x y) (atoms s) \<noteq> None \<Longrightarrow> dragSessionBondedPairs (handlePointerDown x y s) = {}"
  by (auto simp: handlePointerDown_def Let_def split: option.splits)

lemma between_filter: "length (between a b (filter P bs)) \<le> length (between a b bs)"
proof -
  have "between a b (filter P bs) = filter P (between a b bs)"
    by (auto simp: between_def intro: filter_cong)
  then show ?thesis by simp
qed

lemma between_append: "between a b (xs @ ys) = between a b xs @ between a b ys"
  by (simp add: between_def)

lemma between_without:
  assumes "k < length bs"
  shows "length (between a b (take k bs @ drop (Suc k) bs)) \<le> length (between a b bs)"
proof -
  from assms have "bs = take k bs @ bs ! k # drop (Suc k) bs"
    by (simp add: id_take_nth_drop [symmetric])
  then have "between a b bs = between a b (take k bs) @ between a b (bs ! k # drop (Suc k) bs)"
    by (metis between_append)
  then show ?thesis
    by (simp add: between_append between_def)
qed

lemma between_undo: "length (between a b (bonds (undo s))) \<le> length (between a b (bonds s))"
proof -
  have "length (between a b (bonds s)) \<le> N \<Longrightarrow> length (between a b (bonds (undo s))) \<le> N" for N
  proof (rule undo_induct_rule [where P = "\<lambda>s. length (between a b (bonds s)) \<le> N"])
    fix s :: arena and h
    assume "length (between a b (bonds s)) \<le> N"
    then show "length (between a b (bonds (s\<lparr>bondHistory := h\<rparr>))) \<le> N" by simp
  next
    fix s :: arena and k
    assume p: "length (between a b (bonds s)) \<le> N"
      and f: "findIndex (\<lambda>b. b_id b = last (bondHistory s)) (bonds s) = Some k"
    from findIndex_Some [OF f] have "k < length (bonds s)" by simp
    from between_without [OF this, of a b] p
    show "length (between a b (bonds (undoBond k (s\<lparr>bondHistory := butlast (bondHistory s)\<rparr>)))) \<le> N"
      by (simp add: undoBond_def Let_def)
  qed
  then show ?thesis by simp
qed

lemma bonds_beforeBond: "bonds (beforeBond i s) = bonds s"
  by (simp add: beforeBond_def physics_def spawning_def)

lemma bonds_update:
  "bonds (update i s) =
     (case bondCandidate (beforeBond i s) of
        None \<Rightarrow> bonds s
      | Some (d, n) \<Rightarrow> bonds (checkMolecules (createBond (bond_uuid i) d n (beforeBond i s))))"
  by (simp add: update_def render_def bondAttempt_def bonds_beforeBond split: option.splits)

lemma bonds_createBond:
  "bonds (createBond u d n s) =
     bonds s @ [\<lparr>b_id = u, atom1Id = a_id (atoms s ! d), atom2Id = a_id (atoms s ! n), stress = 0\<rparr>]"
  by (simp add: createBond_def Let_def)

lemma gesture_step:
  assumes "in_gesture e"
  shows "length (between a b (bonds (step s e)))
       \<le> length (between a b (bonds s))
           + (if pairKey a b \<in> dragSessionBondedPairs s then 0
              else if pairKey a b \<in> dragSessionBondedPairs (step s e) then 1 else 0)"
proof (cases e)
  case (Tick i)
  show ?thesis
  proof (cases "bondCandidate (beforeBond i s)")
    case None
    with Tick show ?thesis by (simp add: bonds_update)
  next
    case (Some dn)
    then obtain d n where c: "bondCandidate (beforeBond i s) = Some (d, n)"
      by (cases dn) simp
    let ?p = "a_id (atoms (beforeBond i s) ! d)" and ?q = "a_id (atoms (beforeBond i s) ! n)"
    let ?new = "\<lparr>b_id = bond_uuid i, atom1Id = ?p, atom2Id = ?q, stress = 0\<rparr>"
    have k1: "pairKey ?p ?q \<notin> dragSessionBondedPairs s"
      using bondCandidate_Some(7) [OF c] by (simp add: session_beforeBond)
    have k2: "pairKey ?p ?q \<in> dragSessionBondedPairs (step s e)"
      using Tick c by (simp add: session_update)
    have "bonds (step s e) = bonds (checkMolecules (createBond (bond_uuid i) d n (beforeBond i s)))"
      using Tick c by (simp add: bonds_update)
    then have "length (between a b (bonds (step s e)))
        \<le> length (between a b (bonds (createBond (bond_uuid i) d n (beforeBond i s))))"
      by (simp add: checkMolecules_fields between_filter)
    also have "\<dots> = length (between a b (bonds s)) + length (between a b [?new])"
      by (simp add: bonds_createBond bonds_beforeBond between_append)
    finally have le: "length (between a b (bonds (step s e)))
        \<le> length (between a b (bonds s)) + length (between a b [?new])" .
    show ?thesis
    proof (cases "between a b [?new] = []")
      case True
      with le show ?thesis by simp
    next
      case False
      then have "(?p = a \<and> ?q = b) \<or> (?p = b \<and> ?q = a)"
        by (auto simp: between_def split: if_splits)
      then have "pairKey ?p ?q = pairKey a b"
        using pairKey_commute by auto
      with k1 k2 have "pairKey a b \<notin> dragSessionBondedPairs s"
        "pairKey a b \<in> dragSessionBondedPairs (step s e)" by simp_all
      moreover have "length (between a b [?new]) \<le> 1"
        by (simp add: between_def)
      ultimately show ?thesis using le by simp
    qed
  qed
next
  case (PointerMove x y)
  then show ?thesis by (simp add: handlePointerMove_def)
next
  case (PointerUp rx ry)
  then show ?thesis by (simp add: bonds_pointerUp)
next
  case Undo
  with between_undo [of a b s] show ?thesis by simp
qed (use assms in simp_all)

lemma gesture_records:
  "list_all in_gesture es \<Longrightarrow>
     length (between a b (bonds (run s es)))
       \<le> length (between a b (bonds s)) + (if pairKey a b \<in> dragSessionBondedPairs s then 0 else 1)"
proof (induction es arbitrary: s)
  case Nil
  then show ?case by simp
next
  case (Cons e es)
  then have e: "in_gesture e" and es: "list_all in_gesture es"
    by simp_all
  note IH = Cons.IH [OF es, of "step s e"]
  note mono = session_grows [OF e, of s]
  note st = gesture_step [OF e, of a b s]
  show ?case
  proof (cases "pairKey a b \<in> dragSessionBondedPairs s")
    case True
    with mono have "pairKey a b \<in> dragSessionBondedPairs (step s e)" by auto
    with IH st True show ?thesis by simp
  next
    case False
    show ?thesis
    proof (cases "pairKey a b \<in> dragSessionBondedPairs (step s e)")
      case True
      with IH st False show ?thesis by simp
    next
      case n: False
      with IH st False show ?thesis by simp
    qed
  qed
qed

text \<open>
  C4. Between two clearings of the session set (a pointer-down that hits an atom, or a
  reset), whatever ticks, pointer moves, releases and undos occur, the number of bond
  records that join two given atoms, in either direction, grows by at most one, and by
  none once the pair is in the session set. A tick whose bond attempt selects a pair
  appends exactly one bond record, which joins that pair, and puts the pair, which was
  not there, into the session set; a tick whose bond attempt selects none leaves the
  bond records alone. A pointer-down that hits an atom empties the session set.
\<close>

theorem one_bond_per_pair_per_gesture:
  "(list_all in_gesture es \<longrightarrow>
        length (between a b (bonds (run s es))) \<le> length (between a b (bonds s)) + 1
      \<and> length (filter (joins a b) (bondsCreated s es)) \<le> 1)
   \<and> (list_all in_gesture es \<and> pairKey a b \<in> dragSessionBondedPairs s \<longrightarrow>
        length (between a b (bonds (run s es))) \<le> length (between a b (bonds s))
      \<and> filter (joins a b) (bondsCreated s es) = [])
   \<and> (bondCandidate (beforeBond i s) = Some (d, n) \<longrightarrow>
        update i s = render (checkMolecules (createBond (bond_uuid i) d n (beforeBond i s)))
      \<and> bonds (createBond (bond_uuid i) d n (beforeBond i s)) =
          bonds s @ [\<lparr>b_id = bond_uuid i, atom1Id = a_id (atoms (beforeBond i s) ! d),
                       atom2Id = a_id (atoms (beforeBond i s) ! n), stress = 0\<rparr>]
      \<and> bondCreated s (Tick i) = [(a_id (atoms (beforeBond i s) ! d), a_id (atoms (beforeBond i s) ! n))]
      \<and> pairKey (a_id (atoms (beforeBond i s) ! d)) (a_id (atoms (beforeBond i s) ! n))
           \<notin> dragSessionBondedPairs s
      \<and> pairKey (a_id (atoms (beforeBond i s) ! d)) (a_id (atoms (beforeBond i s) ! n))
           \<in> dragSessionBondedPairs (update i s))
   \<and> (bondCandidate (beforeBond i s) = None \<longrightarrow>
        bonds (update i s) = bonds s \<and> bondCreated s (Tick i) = [])
   \<and> (findIndex (hit x y) (atoms s) \<noteq> None \<longrightarrow>
         dragSessionBondedPairs (handlePointerDown x y s) = {})"
proof -
  have 1: "length (between a b (bonds (run s es))) \<le> length (between a b (bonds s)) + 1
      \<and> length (filter (joins a b) (bondsCreated s es)) \<le> 1" if "list_all in_gesture es"
    using gesture_records [OF that, of a b s] gesture_bound [OF that, of a b s]
    by (simp split: if_splits)
  have 2: "length (between a b (bonds (run s es))) \<le> length (between a b (bonds s))
      \<and> filter (joins a b) (bondsCreated s es) = []"
    if "list_all in_gesture es \<and> pairKey a b \<in> dragSessionBondedPairs s"
    using that gesture_records [of es a b s] gesture_bound [of es a b s] by simp
  have 3: "update i s = render (checkMolecules (createBond (bond_uuid i) d n (beforeBond i s)))
      \<and> bonds (createBond (bond_uuid i) d n (beforeBond i s)) =
          bonds s @ [\<lparr>b_id = bond_uuid i, atom1Id = a_id (atoms (beforeBond i s) ! d),
                       atom2Id = a_id (atoms (beforeBond i s) ! n), stress = 0\<rparr>]
      \<and> bondCreated s (Tick i) = [(a_id (atoms (beforeBond i s) ! d), a_id (atoms (beforeBond i s) ! n))]
      \<and> pairKey (a_id (atoms (beforeBond i s) ! d)) (a_id (atoms (beforeBond i s) ! n))
           \<notin> dragSessionBondedPairs s
      \<and> pairKey (a_id (atoms (beforeBond i s) ! d)) (a_id (atoms (beforeBond i s) ! n))
           \<in> dragSessionBondedPairs (update i s)"
    if c: "bondCandidate (beforeBond i s) = Some (d, n)"
  proof -
    have "update i s = render (checkMolecules (createBond (bond_uuid i) d n (beforeBond i s)))"
      using c by (simp add: update_def bondAttempt_def)
    moreover have "bonds (createBond (bond_uuid i) d n (beforeBond i s)) =
          bonds s @ [\<lparr>b_id = bond_uuid i, atom1Id = a_id (atoms (beforeBond i s) ! d),
                       atom2Id = a_id (atoms (beforeBond i s) ! n), stress = 0\<rparr>]"
      by (simp add: bonds_createBond bonds_beforeBond)
    moreover have "bondCreated s (Tick i)
        = [(a_id (atoms (beforeBond i s) ! d), a_id (atoms (beforeBond i s) ! n))]"
      using c by simp
    moreover have "pairKey (a_id (atoms (beforeBond i s) ! d)) (a_id (atoms (beforeBond i s) ! n))
           \<notin> dragSessionBondedPairs s"
      using bondCandidate_Some(7) [OF c] by (simp add: session_beforeBond)
    moreover have "pairKey (a_id (atoms (beforeBond i s) ! d)) (a_id (atoms (beforeBond i s) ! n))
           \<in> dragSessionBondedPairs (update i s)"
      using c by (simp add: session_update)
    ultimately show ?thesis by blast
  qed
  have 4: "bonds (update i s) = bonds s \<and> bondCreated s (Tick i) = []"
    if "bondCandidate (beforeBond i s) = None"
    using that by (simp add: bonds_update)
  from 1 2 3 4 session_pointerDown show ?thesis
    by blast
qed

section \<open>The example continued: a second tick and a second gesture\<close>

lemma sqrt_4900: "sqrt 4900 = 70"
  by (rule real_sqrt_unique) simp_all

lemma update_pair_bonded: "update (frame 4032 ''b2'') pair_bonded = pair_still"
  by (simp add: eval_defs pair_still_def sqrt_4900)

lemma candidate_pair_bonded: "bondCandidate (beforeBond (frame 4032 ''b2'') pair_bonded) = None"
  by (simp add: eval_defs sqrt_4900)

lemma up_pair_still: "handlePointerUp (1/2) (1/2) pair_still = pair_released"
  by (simp add: eval_defs pair_still_def pair_released_def)

lemma down_pair_released: "handlePointerDown 28 100 pair_released = pair_regrabbed"
  by (simp add: eval_defs pair_released_def pair_regrabbed_def)

lemma run_gesture:
  "run (handlePointerDown 28 100 pair_loose)
       [Tick (frame 4016 ''b1''), Tick (frame 4032 ''b2''), PointerUp (1/2) (1/2)] = pair_released"
  by (simp add: down_pair_loose update_pair_held update_pair_bonded up_pair_still)

theorem one_bond_per_pair_per_gesture_witness:
  "bonds (handlePointerDown 28 100 pair_loose) = []
   \<and> bonds (run (handlePointerDown 28 100 pair_loose)
       [Tick (frame 4016 ''b1''), Tick (frame 4032 ''b2''), PointerUp (1/2) (1/2)])
      = [\<lparr>b_id = ''b1'', atom1Id = ''o1'', atom2Id = ''o2'', stress = 0\<rparr>]
   \<and> length (between ''o2'' ''o1'' (bonds (run (handlePointerDown 28 100 pair_loose)
       [Tick (frame 4016 ''b1''), Tick (frame 4032 ''b2''), PointerUp (1/2) (1/2)]))) \<le> 0 + 1
   \<and> bondsCreated (handlePointerDown 28 100 pair_loose)
       [Tick (frame 4016 ''b1''), Tick (frame 4032 ''b2''), PointerUp (1/2) (1/2)] = [(''o1'', ''o2'')]
   \<and> pairKey ''o2'' ''o1'' \<in> dragSessionBondedPairs pair_bonded
   \<and> bonds (run pair_bonded [Tick (frame 4032 ''b2'')]) = bonds pair_bonded
   \<and> filter (joins ''o2'' ''o1'') (bondsCreated pair_bonded [Tick (frame 4032 ''b2'')]) = []
   \<and> dragSessionBondedPairs (handlePointerDown 28 100 pair_released) = {}
   \<and> handlePointerDown 28 100 pair_released = pair_regrabbed
   \<and> bonds (createBond ''b3'' 0 1 (beforeBond (frame 4048 ''b3'') pair_regrabbed))
      = [\<lparr>b_id = ''b1'', atom1Id = ''o1'', atom2Id = ''o2'', stress = 0\<rparr>,
         \<lparr>b_id = ''b3'', atom1Id = ''o1'', atom2Id = ''o2'', stress = 0\<rparr>]
   \<and> update (frame 4048 ''b3'') pair_regrabbed
      = render (checkMolecules (createBond ''b3'' 0 1 (beforeBond (frame 4048 ''b3'') pair_regrabbed)))"
proof -
  let ?es = "[Tick (frame 4016 ''b1''), Tick (frame 4032 ''b2''), PointerUp (1/2) (1/2)]"
  have g: "list_all in_gesture ?es"
    by simp
  have b0: "bonds (handlePointerDown 28 100 pair_loose) = []"
    by (simp add: down_pair_loose pair_held_def)
  have b1: "bonds (run (handlePointerDown 28 100 pair_loose) ?es)
      = [\<lparr>b_id = ''b1'', atom1Id = ''o1'', atom2Id = ''o2'', stress = 0\<rparr>]"
    unfolding run_gesture by (simp add: pair_released_def pair_bonded_def)
  have c1: "bondCreated pair_held (Tick (frame 4016 ''b1'')) = [(''o1'', ''o2'')]"
    by (simp add: candidate_pair_held) (simp add: beforeBond_pair_held oxygen_def)
  have c: "bondsCreated (handlePointerDown 28 100 pair_loose) ?es = [(''o1'', ''o2'')]"
    using c1 by (simp add: down_pair_loose update_pair_held candidate_pair_bonded)
  have k: "list_all in_gesture [Tick (frame 4032 ''b2'')] \<and> pairKey ''o2'' ''o1'' \<in> dragSessionBondedPairs pair_bonded"
    by (simp add: pair_bonded_def pairKey_def)
  have h: "findIndex (hit 28 100) (atoms pair_released) \<noteq> None"
    by (simp add: pair_released_def pair_bonded_def oxygen_def hit_def)
  have f: "bond_uuid (frame 4048 ''b3'') = ''b3''"
    by (simp add: frame_def)
  have ids: "a_id (atoms (beforeBond (frame 4048 ''b3'') pair_regrabbed) ! 0) = ''o1''"
    "a_id (atoms (beforeBond (frame 4048 ''b3'') pair_regrabbed) ! 1) = ''o2''"
    by (simp_all add: eval_defs pair_regrabbed_def)
  from one_bond_per_pair_per_gesture [of ?es "''o2''" "''o1''" "handlePointerDown 28 100 pair_loose"] g
  have 1: "length (between ''o2'' ''o1'' (bonds (run (handlePointerDown 28 100 pair_loose) ?es)))
      \<le> length (between ''o2'' ''o1'' (bonds (handlePointerDown 28 100 pair_loose))) + 1"
    by blast
  from one_bond_per_pair_per_gesture [of "[Tick (frame 4032 ''b2'')]" "''o2''" "''o1''" pair_bonded] k
  have 2: "length (between ''o2'' ''o1'' (bonds (run pair_bonded [Tick (frame 4032 ''b2'')])))
      \<le> length (between ''o2'' ''o1'' (bonds pair_bonded))"
    "filter (joins ''o2'' ''o1'') (bondsCreated pair_bonded [Tick (frame 4032 ''b2'')]) = []"
    by blast+
  have same: "bonds (run pair_bonded [Tick (frame 4032 ''b2'')]) = bonds pair_bonded"
    by (simp add: update_pair_bonded pair_still_def)
  from one_bond_per_pair_per_gesture [of "[]" "''o2''" "''o1''" pair_released _ _ _ 28 100] h
  have 3: "dragSessionBondedPairs (handlePointerDown 28 100 pair_released) = {}"
    by blast
  from one_bond_per_pair_per_gesture [of "[]" "''o2''" "''o1''" pair_regrabbed "frame 4048 ''b3''" 0 1]
    candidate_pair_regrabbed
  have 4: "bonds (createBond ''b3'' 0 1 (beforeBond (frame 4048 ''b3'') pair_regrabbed))
      = bonds pair_regrabbed @ [\<lparr>b_id = ''b3'', atom1Id = ''o1'', atom2Id = ''o2'', stress = 0\<rparr>]"
    and 5: "update (frame 4048 ''b3'') pair_regrabbed
      = render (checkMolecules (createBond ''b3'' 0 1 (beforeBond (frame 4048 ''b3'') pair_regrabbed)))"
    unfolding f ids by blast+
  from 1 have one: "length (between ''o2'' ''o1'' (bonds (run (handlePointerDown 28 100 pair_loose) ?es))) \<le> 0 + 1"
    by (simp add: b0 between_def)
  from 4 have both: "bonds (createBond ''b3'' 0 1 (beforeBond (frame 4048 ''b3'') pair_regrabbed))
      = [\<lparr>b_id = ''b1'', atom1Id = ''o1'', atom2Id = ''o2'', stress = 0\<rparr>,
         \<lparr>b_id = ''b3'', atom1Id = ''o1'', atom2Id = ''o2'', stress = 0\<rparr>]"
    by (simp add: pair_regrabbed_def)
  from b0 b1 one c k same 2(2) 3 down_pair_released both 5 show ?thesis
    by simp
qed

section \<open>Claim C6: the rejected bond at pointer release\<close>



















section \<open>The bond graph and the breadth-first traversal\<close>

lemma sym_adjacent: "sym (adjacent bs)"
  by (auto simp: adjacent_def sym_def)

lemma adjacent_converse: "(u, v) \<in> (adjacent bs)\<^sup>* \<Longrightarrow> (v, u) \<in> (adjacent bs)\<^sup>*"
  using sym_adjacent [of bs] by (meson sym_rtrancl symD)

lemma neighborIds_set: "set (neighborIds bs u) = adjacent bs `` {u}"
proof
  show "set (neighborIds bs u) \<subseteq> adjacent bs `` {u}"
    by (auto simp: neighborIds_def adjacent_def)
next
  show "adjacent bs `` {u} \<subseteq> set (neighborIds bs u)"
  proof
    fix v
    assume "v \<in> adjacent bs `` {u}"
    then obtain b where b: "b \<in> set bs"
      "(atom1Id b = u \<and> atom2Id b = v) \<or> (atom1Id b = v \<and> atom2Id b = u)"
      by (auto simp: adjacent_def)
    then have "atom1Id b = u \<or> atom2Id b = u" and "(if atom1Id b = u then atom2Id b else atom1Id b) = v"
      by auto
    with b(1) show "v \<in> set (neighborIds bs u)"
      unfolding neighborIds_def by force
  qed
qed

lemma adjacent_in_store:
  "store_ok as bs \<Longrightarrow> (u, v) \<in> adjacent bs \<Longrightarrow> u \<in> set (map a_id as) \<and> v \<in> set (map a_id as)"
  by (auto simp: store_ok_def adjacent_def)

lemma closed_reach:
  assumes "bond_closed bs V" "(u, v) \<in> (adjacent bs)\<^sup>*" "u \<in> V"
  shows "v \<in> V"
  using assms(2,1,3) by (induction rule: rtrancl_induct) (auto simp: bond_closed_def)

lemma closed_component: "bond_closed bs V \<Longrightarrow> u \<in> V \<Longrightarrow> component_of bs u \<subseteq> V"
  using closed_reach by (auto simp: component_of_def)

lemma closed_component_outside:
  assumes "bond_closed bs V" "u \<notin> V"
  shows "component_of bs u \<inter> V = {}"
proof -
  have False if "v \<in> component_of bs u" "v \<in> V" for v
  proof -
    from that(1) have "(v, u) \<in> (adjacent bs)\<^sup>*"
      by (simp add: component_of_def adjacent_converse)
    from closed_reach [OF assms(1) this that(2)] assms(2) show False by simp
  qed
  then show ?thesis by blast
qed

lemma component_refl: "u \<in> component_of bs u"
  by (simp add: component_of_def)

lemma component_eq: "v \<in> component_of bs u \<Longrightarrow> component_of bs v = component_of bs u"
proof -
  assume v: "v \<in> component_of bs u"
  then have uv: "(u, v) \<in> (adjacent bs)\<^sup>*" by (simp add: component_of_def)
  then have vu: "(v, u) \<in> (adjacent bs)\<^sup>*" by (rule adjacent_converse)
  show ?thesis
    unfolding component_of_def using uv vu by (auto intro: rtrancl_trans)
qed

lemma closed_component_of: "bond_closed bs (component_of bs u)"
  unfolding bond_closed_def component_of_def by (auto intro: rtrancl_into_rtrancl)

lemma closed_Un: "bond_closed bs V \<Longrightarrow> bond_closed bs W \<Longrightarrow> bond_closed bs (V \<union> W)"
  unfolding bond_closed_def by blast

lemma closed_empty: "bond_closed bs {}"
  by (simp add: bond_closed_def)

lemma visitNeighbors_result:
  "\<exists>new. visitNeighbors as nids (queue, visited) = (queue @ new, visited \<union> set (map a_id new))
        \<and> set (map a_id new) = (set nids \<inter> set (map a_id as)) - visited
        \<and> distinct (map a_id new) \<and> set new \<subseteq> set as"
proof (induction nids arbitrary: queue visited)
  case Nil
  show ?case by (intro exI [of _ "[]"]) simp
next
  case (Cons nid nids)
  show ?case
  proof (cases "find (\<lambda>a. a_id a = nid) as")
    case None
    then have out: "nid \<notin> set (map a_id as)"
      by (auto simp: find_None_iff)
    from Cons.IH [of queue visited] obtain new where
      "visitNeighbors as nids (queue, visited) = (queue @ new, visited \<union> set (map a_id new))"
      "set (map a_id new) = (set nids \<inter> set (map a_id as)) - visited"
      "distinct (map a_id new)" "set new \<subseteq> set as"
      by blast
    with None out show ?thesis
      by (intro exI [of _ new]) auto
  next
    case (Some nAtom)
    then have mem: "nAtom \<in> set as" and nid: "a_id nAtom = nid"
      by (auto simp: find_Some_iff)
    show ?thesis
    proof (cases "nid \<in> visited")
      case True
      from Cons.IH [of queue visited] obtain new where
        "visitNeighbors as nids (queue, visited) = (queue @ new, visited \<union> set (map a_id new))"
        "set (map a_id new) = (set nids \<inter> set (map a_id as)) - visited"
        "distinct (map a_id new)" "set new \<subseteq> set as"
        by blast
      with Some True nid show ?thesis
        by (intro exI [of _ new]) auto
    next
      case False
      from Cons.IH [of "queue @ [nAtom]" "insert nid visited"] obtain new where n:
        "visitNeighbors as nids (queue @ [nAtom], insert nid visited)
           = ((queue @ [nAtom]) @ new, insert nid visited \<union> set (map a_id new))"
        "set (map a_id new) = (set nids \<inter> set (map a_id as)) - insert nid visited"
        "distinct (map a_id new)" "set new \<subseteq> set as"
        by blast
      have "visitNeighbors as (nid # nids) (queue, visited)
              = (queue @ (nAtom # new), visited \<union> set (map a_id (nAtom # new)))"
        using Some False nid n(1) by simp
      moreover have "set (map a_id (nAtom # new)) = (set (nid # nids) \<inter> set (map a_id as)) - visited"
        using n(2) nid mem False by auto
      moreover have "distinct (map a_id (nAtom # new))"
        using n(2,3) nid by auto
      moreover have "set (nAtom # new) \<subseteq> set as"
        using n(4) mem by simp
      ultimately show ?thesis
        by blast
    qed
  qed
qed

lemma bfs_result:
  assumes ok: "store_ok as bs"
  shows "set (map a_id queue) \<subseteq> visited \<Longrightarrow> set queue \<subseteq> set as \<Longrightarrow> distinct (map a_id queue) \<Longrightarrow>
         (\<forall>u \<in> visited - set (map a_id queue). adjacent bs `` {u} \<subseteq> visited) \<Longrightarrow>
         \<exists>new visited'.
            bfs as bs queue visited component isStable
              = (component @ new, visited', isStable \<and> (\<forall>a \<in> set new. at_valency a))
          \<and> set new \<subseteq> set as \<and> distinct (map a_id new) \<and> (\<exists>rest. new = queue @ rest)
          \<and> set (map a_id new) = (visited' - visited) \<union> set (map a_id queue)
          \<and> visited \<subseteq> visited' \<and> bond_closed bs visited'
          \<and> visited' \<subseteq> visited \<union> (adjacent bs)\<^sup>* `` set (map a_id queue)"
proof (induction "length queue + 2 * unvisited as visited"
    arbitrary: queue visited component isStable rule: less_induct)
  case less
  show ?case
  proof (cases queue)
    case Nil
    with less.prems(4) have "bond_closed bs visited"
      by (simp add: bond_closed_def)
    with Nil show ?thesis
      by simp
  next
    case (Cons current q)
    let ?cid = "a_id current"
    from visitNeighbors_result [of as "neighborIds bs ?cid" q visited]
    obtain added where vn: "visitNeighbors as (neighborIds bs ?cid) (q, visited)
                              = (q @ added, visited \<union> set (map a_id added))"
      and added_ids: "set (map a_id added) = (set (neighborIds bs ?cid) \<inter> set (map a_id as)) - visited"
      and added_dist: "distinct (map a_id added)" and added_mem: "set added \<subseteq> set as"
      by blast
    let ?v1 = "visited \<union> set (map a_id added)"
    have nb: "adjacent bs `` {?cid} \<subseteq> set (map a_id as)"
      using adjacent_in_store [OF ok] by blast
    have added_eq: "set (map a_id added) = adjacent bs `` {?cid} - visited"
      using added_ids nb by (auto simp: neighborIds_set)
    have cur: "?cid \<in> visited" "?cid \<notin> set (map a_id q)" "current \<in> set as"
      and q: "set (map a_id q) \<subseteq> visited" "set q \<subseteq> set as" "distinct (map a_id q)"
      using less.prems(1,2,3) Cons by auto
    have m: "length (q @ added) + 2 * unvisited as ?v1 < length queue + 2 * unvisited as visited"
      using visitNeighbors_measure [OF vn] Cons by simp
    have p1: "set (map a_id (q @ added)) \<subseteq> ?v1"
      using q(1) by auto
    have p3: "set (q @ added) \<subseteq> set as"
      using q(2) added_mem by simp
    have p4: "distinct (map a_id (q @ added))"
      using q(1,3) added_dist added_eq by auto
    have p2: "\<forall>u \<in> ?v1 - set (map a_id (q @ added)). adjacent bs `` {u} \<subseteq> ?v1"
    proof
      fix u
      assume "u \<in> ?v1 - set (map a_id (q @ added))"
      then have u: "u \<in> visited" "u \<notin> set (map a_id q)"
        by auto
      show "adjacent bs `` {u} \<subseteq> ?v1"
      proof (cases "u = ?cid")
        case True
        then show ?thesis using added_eq by auto
      next
        case False
        with u Cons have "u \<in> visited - set (map a_id queue)" by simp
        with less.prems(4) show ?thesis by blast
      qed
    qed
    let ?st = "isStable \<and> at_valency current"
    from less.hyps [OF m p1 p3 p4 p2, of "component @ [current]" ?st]
    obtain new1 visited' where
      r: "bfs as bs (q @ added) ?v1 (component @ [current]) ?st
            = ((component @ [current]) @ new1, visited', ?st \<and> (\<forall>a \<in> set new1. at_valency a))"
      and n_mem: "set new1 \<subseteq> set as" and n_dist: "distinct (map a_id new1)"
      and n_pre: "\<exists>rest. new1 = (q @ added) @ rest"
      and n_ids: "set (map a_id new1) = (visited' - ?v1) \<union> set (map a_id (q @ added))"
      and v_mono: "?v1 \<subseteq> visited'" and v_closed: "bond_closed bs visited'"
      and v_sound: "visited' \<subseteq> ?v1 \<union> (adjacent bs)\<^sup>* `` set (map a_id (q @ added))"
      by blast
    have st: "(if currentBonds current \<noteq> valency (ATOM_DEFS (a_type current)) then False else isStable) = ?st"
      by (auto simp: at_valency_def)
    have e: "bfs as bs queue visited component isStable
              = (component @ (current # new1), visited',
                 isStable \<and> (\<forall>a \<in> set (current # new1). at_valency a))"
      using r vn st Cons by (auto simp: Let_def)
    have c_mem: "set (current # new1) \<subseteq> set as"
      using n_mem cur(3) by simp
    have c_dist: "distinct (map a_id (current # new1))"
      using n_dist n_ids cur(1,2) added_eq by auto
    have c_pre: "\<exists>rest. current # new1 = queue @ rest"
      using n_pre Cons by auto
    have c_ids: "set (map a_id (current # new1)) = (visited' - visited) \<union> set (map a_id queue)"
      using n_ids v_mono added_eq Cons by auto
    have c_mono: "visited \<subseteq> visited'"
      using v_mono by blast
    have c_sound: "visited' \<subseteq> visited \<union> (adjacent bs)\<^sup>* `` set (map a_id queue)"
    proof
      fix x
      assume "x \<in> visited'"
      moreover have "set (map a_id added) \<subseteq> (adjacent bs)\<^sup>* `` set (map a_id added)"
        by blast
      moreover note v_sound
      ultimately have "x \<in> visited \<or> x \<in> (adjacent bs)\<^sup>* `` set (map a_id q)
          \<or> x \<in> (adjacent bs)\<^sup>* `` set (map a_id added)"
        unfolding map_append set_append Image_Un by blast
      moreover have "x \<in> (adjacent bs)\<^sup>* `` set (map a_id queue)"
        if "x \<in> (adjacent bs)\<^sup>* `` set (map a_id q)"
        using that Cons by auto
      moreover have "x \<in> (adjacent bs)\<^sup>* `` set (map a_id queue)"
        if "x \<in> (adjacent bs)\<^sup>* `` set (map a_id added)"
      proof -
        from that obtain u where u: "u \<in> set (map a_id added)" "(u, x) \<in> (adjacent bs)\<^sup>*"
          by blast
        with added_eq have "(?cid, u) \<in> adjacent bs" by auto
        with u(2) have "(?cid, x) \<in> (adjacent bs)\<^sup>*"
          by (meson converse_rtrancl_into_rtrancl)
        with Cons show ?thesis by auto
      qed
      ultimately show "x \<in> visited \<union> (adjacent bs)\<^sup>* `` set (map a_id queue)"
        by blast
    qed
    from e c_mem c_dist c_pre c_ids c_mono v_closed c_sound show ?thesis
      by blast
  qed
qed

section \<open>Claim C3: what a scan reports and removes\<close>

lemma bfs_root:
  assumes ok: "store_ok as bs" and cl: "bond_closed bs visited"
    and mem: "atom \<in> set as" and new: "a_id atom \<notin> visited"
  shows "\<exists>c. bfs as bs [atom] (insert (a_id atom) visited) [] True
               = (c, visited \<union> component_of bs (a_id atom), \<forall>a \<in> set c. at_valency a)
           \<and> c \<noteq> [] \<and> hd c = atom \<and> set c \<subseteq> set as \<and> distinct (map a_id c)
           \<and> set (map a_id c) = component_of bs (a_id atom)"
proof -
  let ?r = "a_id atom"
  let ?v0 = "insert ?r visited"
  have p2: "\<forall>u \<in> ?v0 - set (map a_id [atom]). adjacent bs `` {u} \<subseteq> ?v0"
    using cl by (auto simp: bond_closed_def)
  from bfs_result [OF ok, of "[atom]" ?v0 "[]" True] mem p2
  obtain c v' where r: "bfs as bs [atom] ?v0 [] True = (c, v', \<forall>a \<in> set c. at_valency a)"
    and c_mem: "set c \<subseteq> set as" and c_dist: "distinct (map a_id c)"
    and c_pre: "\<exists>rest. c = [atom] @ rest"
    and c_ids: "set (map a_id c) = (v' - ?v0) \<union> set (map a_id [atom])"
    and mono: "?v0 \<subseteq> v'" and v_cl: "bond_closed bs v'"
    and sound: "v' \<subseteq> ?v0 \<union> (adjacent bs)\<^sup>* `` set (map a_id [atom])"
    by auto
  have comp_in: "component_of bs ?r \<subseteq> v'"
    using closed_component [OF v_cl] mono by blast
  have comp_out: "component_of bs ?r \<inter> visited = {}"
    using closed_component_outside [OF cl new] .
  have s2: "v' \<subseteq> visited \<union> component_of bs ?r"
    using sound component_refl [of ?r bs] by (auto simp: component_of_def)
  have v: "v' = visited \<union> component_of bs ?r"
    using s2 comp_in mono by blast
  have ids: "set (map a_id c) = component_of bs ?r"
    using c_ids v comp_out component_refl [of ?r bs] new by auto
  from c_pre have "c \<noteq> []" "hd c = atom"
    by auto
  with r v c_mem c_dist ids show ?thesis
    by blast
qed

lemma scanAtoms_components:
  "\<exists>V. scanAtoms as bs rest (visited, toRemoveAtoms, out)
      = (V, toRemoveAtoms @ concat (map (map a_id \<circ> fst) (filter reported (components as bs rest visited))),
            out @ concat (map (announce \<circ> fst) (filter reported (components as bs rest visited))))"
proof (induction rest arbitrary: visited toRemoveAtoms out)
  case Nil
  show ?case by simp
next
  case (Cons atom rest)
  show ?case
  proof (cases "a_id atom \<in> visited")
    case True
    with Cons.IH [of visited toRemoveAtoms out] show ?thesis by simp
  next
    case False
    obtain c v' st where b: "bfs as bs [atom] (insert (a_id atom) visited) [] True = (c, v', st)"
      by (cases "bfs as bs [atom] (insert (a_id atom) visited) [] True")
    show ?thesis
    proof (cases "st \<and> length c > 1")
      case True
      from Cons.IH [of v' "toRemoveAtoms @ map a_id c"
          "out @ [ScoreUpdate (int (length c) * 100), IdentifyMolecule (composition c)]"]
      show ?thesis
        using False b True by (simp add: reported_def announce_def)
    next
      case no: False
      from Cons.IH [of v' toRemoveAtoms out]
      show ?thesis
        using False b no by (auto simp: reported_def)
    qed
  qed
qed

lemma toRemove_components:
  "toRemove s = concat (map (map a_id) (stableComponents s))"
  using scanAtoms_components [of "atoms s" "bonds s" "atoms s" "{}" "[]" "[]"]
  by (auto simp: toRemove_def stableComponents_def o_def)

lemma scanOut_components:
  "scanOut s = concat (map announce (stableComponents s))"
  using scanAtoms_components [of "atoms s" "bonds s" "atoms s" "{}" "[]" "[]"]
  by (auto simp: scanOut_def stableComponents_def o_def)

lemma components_props:
  assumes ok: "store_ok as bs"
  shows "bond_closed bs visited \<Longrightarrow> set rest \<subseteq> set as \<Longrightarrow>
     (\<forall>p \<in> set (components as bs rest visited).
          fst p \<noteq> [] \<and> set (fst p) \<subseteq> set as \<and> distinct (map a_id (fst p))
        \<and> set (map a_id (fst p)) = component_of bs (a_id (hd (fst p)))
        \<and> (snd p \<longleftrightarrow> (\<forall>a \<in> set (fst p). at_valency a))
        \<and> set (map a_id (fst p)) \<inter> visited = {})
   \<and> distinct (concat (map (map a_id \<circ> fst) (components as bs rest visited)))
   \<and> set (concat (map (map a_id \<circ> fst) (components as bs rest visited)))
        = (\<Union>a \<in> set rest. component_of bs (a_id a)) - visited"
proof (induction rest arbitrary: visited)
  case Nil
  show ?case by simp
next
  case (Cons atom rest)
  let ?K = "component_of bs (a_id atom)"
  show ?case
  proof (cases "a_id atom \<in> visited")
    case True
    from closed_component [OF Cons.prems(1) True] have "?K \<subseteq> visited" .
    then have u: "(\<Union>a \<in> set (atom # rest). component_of bs (a_id a)) - visited
             = (\<Union>a \<in> set rest. component_of bs (a_id a)) - visited"
      by auto
    have e: "components as bs (atom # rest) visited = components as bs rest visited"
      using True by simp
    from Cons.prems(2) have "set rest \<subseteq> set as"
      by simp
    from Cons.IH [OF Cons.prems(1) this] show ?thesis
      unfolding e u .
  next
    case False
    from Cons.prems(2) have mem: "atom \<in> set as" and rest: "set rest \<subseteq> set as"
      by simp_all
    from bfs_root [OF ok Cons.prems(1) mem False]
    obtain c where b: "bfs as bs [atom] (insert (a_id atom) visited) [] True
               = (c, visited \<union> ?K, \<forall>a \<in> set c. at_valency a)"
      and c: "c \<noteq> []" "hd c = atom" "set c \<subseteq> set as" "distinct (map a_id c)"
      and c_ids: "set (map a_id c) = ?K"
      by blast
    let ?v1 = "visited \<union> ?K"
    let ?cs = "components as bs rest ?v1"
    have cl1: "bond_closed bs ?v1"
      using Cons.prems(1) closed_component_of by (rule closed_Un)
    note IH = Cons.IH [OF cl1 rest]
    have out: "?K \<inter> visited = {}"
      using closed_component_outside [OF Cons.prems(1) False] .
    have e: "components as bs (atom # rest) visited = (c, \<forall>a \<in> set c. at_valency a) # ?cs"
      using False b by simp
    have 1: "\<forall>p \<in> set ((c, \<forall>a \<in> set c. at_valency a) # ?cs).
          fst p \<noteq> [] \<and> set (fst p) \<subseteq> set as \<and> distinct (map a_id (fst p))
        \<and> set (map a_id (fst p)) = component_of bs (a_id (hd (fst p)))
        \<and> (snd p \<longleftrightarrow> (\<forall>a \<in> set (fst p). at_valency a))
        \<and> set (map a_id (fst p)) \<inter> visited = {}"
    proof
      fix p
      assume "p \<in> set ((c, \<forall>a \<in> set c. at_valency a) # ?cs)"
      then consider "p = (c, \<forall>a \<in> set c. at_valency a)" | "p \<in> set ?cs"
        by auto
      then show "fst p \<noteq> [] \<and> set (fst p) \<subseteq> set as \<and> distinct (map a_id (fst p))
        \<and> set (map a_id (fst p)) = component_of bs (a_id (hd (fst p)))
        \<and> (snd p \<longleftrightarrow> (\<forall>a \<in> set (fst p). at_valency a))
        \<and> set (map a_id (fst p)) \<inter> visited = {}"
      proof cases
        case 1
        with c c_ids out show ?thesis by simp
      next
        case 2
        with IH have "fst p \<noteq> [] \<and> set (fst p) \<subseteq> set as \<and> distinct (map a_id (fst p))
          \<and> set (map a_id (fst p)) = component_of bs (a_id (hd (fst p)))
          \<and> (snd p \<longleftrightarrow> (\<forall>a \<in> set (fst p). at_valency a))
          \<and> set (map a_id (fst p)) \<inter> ?v1 = {}"
          by blast
        then show ?thesis by blast
      qed
    qed
    have ids_rest: "set (concat (map (map a_id \<circ> fst) ?cs))
        = (\<Union>a \<in> set rest. component_of bs (a_id a)) - ?v1"
      using IH by blast
    have 2: "distinct (concat (map (map a_id \<circ> fst) ((c, \<forall>a \<in> set c. at_valency a) # ?cs)))"
    proof -
      have d_rest: "distinct (concat (map (map a_id \<circ> fst) ?cs))"
        using IH by blast
      have "set (map a_id c) \<inter> set (concat (map (map a_id \<circ> fst) ?cs)) = {}"
        unfolding c_ids ids_rest by blast
      with d_rest c(4) show ?thesis
        by (simp add: o_def)
    qed
    have 3: "set (concat (map (map a_id \<circ> fst) ((c, \<forall>a \<in> set c. at_valency a) # ?cs)))
        = (\<Union>a \<in> set (atom # rest). component_of bs (a_id a)) - visited"
    proof -
      have "set (concat (map (map a_id \<circ> fst) ((c, \<forall>a \<in> set c. at_valency a) # ?cs)))
            = set (map a_id c) \<union> set (concat (map (map a_id \<circ> fst) ?cs))"
        by (simp add: o_def)
      also have "\<dots> = ?K \<union> ((\<Union>a \<in> set rest. component_of bs (a_id a)) - ?v1)"
        unfolding c_ids ids_rest ..
      also have "\<dots> = (\<Union>a \<in> set (atom # rest). component_of bs (a_id a)) - visited"
        using out by auto
      finally show ?thesis .
    qed
    from 1 2 3 show ?thesis
      unfolding e by blast
  qed
qed

lemma distinct_concat_filter:
  "distinct (concat (map f xs)) \<Longrightarrow> distinct (concat (map f (filter P xs)))"
  by (induction xs) auto

lemma stableComponents_props:
  assumes ok: "store_ok (atoms s) (bonds s)"
  shows "\<forall>c \<in> set (stableComponents s).
           c \<noteq> [] \<and> set c \<subseteq> set (atoms s) \<and> distinct (map a_id c)
         \<and> set (map a_id c) = component_of (bonds s) (a_id (hd c))
         \<and> (\<forall>a \<in> set c. at_valency a) \<and> 2 \<le> length c"
    and "distinct (concat (map (map a_id) (stableComponents s)))"
proof -
  let ?cs = "components (atoms s) (bonds s) (atoms s) {}"
  note p = components_props [OF ok closed_empty subset_refl]
  show "\<forall>c \<in> set (stableComponents s).
           c \<noteq> [] \<and> set c \<subseteq> set (atoms s) \<and> distinct (map a_id c)
         \<and> set (map a_id c) = component_of (bonds s) (a_id (hd c))
         \<and> (\<forall>a \<in> set c. at_valency a) \<and> 2 \<le> length c"
  proof
    fix c
    assume "c \<in> set (stableComponents s)"
    then obtain st where m: "(c, st) \<in> set ?cs" and r: "reported (c, st)"
      by (auto simp: stableComponents_def)
    from p m have "c \<noteq> [] \<and> set c \<subseteq> set (atoms s) \<and> distinct (map a_id c)
        \<and> set (map a_id c) = component_of (bonds s) (a_id (hd c))
        \<and> (st \<longleftrightarrow> (\<forall>a \<in> set c. at_valency a))"
      by fastforce
    with r show "c \<noteq> [] \<and> set c \<subseteq> set (atoms s) \<and> distinct (map a_id c)
         \<and> set (map a_id c) = component_of (bonds s) (a_id (hd c))
         \<and> (\<forall>a \<in> set c. at_valency a) \<and> 2 \<le> length c"
      by (simp add: reported_def)
  qed
  have d: "distinct (concat (map (map a_id \<circ> fst) ?cs))"
    using p by blast
  have "distinct (concat (map (map a_id \<circ> fst) (filter reported ?cs)))"
    using d by (rule distinct_concat_filter)
  then show "distinct (concat (map (map a_id) (stableComponents s)))"
    by (simp add: stableComponents_def o_def)
qed

lemma atoms_of_ids:
  assumes "distinct (map a_id as)" "set c \<subseteq> set as" "a \<in> set as" "a_id a \<in> set (map a_id c)"
  shows "a \<in> set c"
proof -
  from assms(4) obtain a' where a': "a' \<in> set c" "a_id a' = a_id a"
    by auto
  from assms(1) have "inj_on a_id (set as)"
    by (simp add: distinct_map)
  with a' assms(2,3) have "a' = a"
    by (meson inj_onD subsetD)
  with a'(1) show ?thesis by simp
qed

lemma two_members:
  assumes "distinct xs" "2 \<le> length xs" "v \<in> set xs"
  shows "\<exists>w \<in> set xs. w \<noteq> v"
proof (rule ccontr)
  assume "\<not> (\<exists>w \<in> set xs. w \<noteq> v)"
  then have "set xs \<subseteq> {v}" by blast
  then have "card (set xs) \<le> card {v}"
    by (intro card_mono) simp_all
  then have "card (set xs) \<le> 1"
    by simp
  with assms(1,2) show False
    by (simp add: distinct_card)
qed

lemma long_list:
  assumes "v \<in> set xs" "w \<in> set xs" "w \<noteq> v"
  shows "1 < length xs"
proof -
  have "card {v, w} \<le> card (set xs)"
    using assms by (intro card_mono) simp_all
  also have "\<dots> \<le> length xs"
    by (rule card_length)
  finally show ?thesis
    using assms(3) by simp
qed

lemma toRemove_stable:
  assumes ok: "store_ok (atoms s) (bonds s)"
  shows "set (toRemove s) = {v \<in> set (map a_id (atoms s)). stable_at (atoms s) (bonds s) v}"
proof (intro set_eqI iffI)
  fix v
  assume "v \<in> set (toRemove s)"
  then obtain c where c: "c \<in> set (stableComponents s)" and v: "v \<in> set (map a_id c)"
    by (auto simp: toRemove_components)
  from stableComponents_props(1) [OF ok] c
  have p: "set c \<subseteq> set (atoms s)" "distinct (map a_id c)"
    "set (map a_id c) = component_of (bonds s) (a_id (hd c))"
    "\<forall>a \<in> set c. at_valency a" "2 \<le> length c"
    by blast+
  from v p(3) have k: "component_of (bonds s) v = set (map a_id c)"
    using component_eq by blast
  from ok have d: "distinct (map a_id (atoms s))"
    by (simp add: store_ok_def)
  have "\<forall>a \<in> set (atoms s). a_id a \<in> component_of (bonds s) v \<longrightarrow> at_valency a"
    using atoms_of_ids [OF d p(1)] p(4) k by blast
  moreover have "\<exists>w \<in> component_of (bonds s) v. w \<noteq> v"
    unfolding k using p(2) _ v by (rule two_members) (use p(5) in simp)
  moreover have "v \<in> set (map a_id (atoms s))"
    using v p(1) by auto
  ultimately show "v \<in> {v \<in> set (map a_id (atoms s)). stable_at (atoms s) (bonds s) v}"
    by (simp add: stable_at_def)
next
  fix v
  assume "v \<in> {v \<in> set (map a_id (atoms s)). stable_at (atoms s) (bonds s) v}"
  then have v: "v \<in> set (map a_id (atoms s))" and st: "stable_at (atoms s) (bonds s) v"
    by simp_all
  let ?cs = "components (atoms s) (bonds s) (atoms s) {}"
  note cp = components_props [OF ok closed_empty subset_refl]
  from cp have cover: "set (concat (map (map a_id \<circ> fst) ?cs))
        = (\<Union>a \<in> set (atoms s). component_of (bonds s) (a_id a)) - {}"
    by blast
  from v obtain a0 where "a0 \<in> set (atoms s)" "a_id a0 = v"
    by auto
  with component_refl [of v "bonds s"]
  have "v \<in> (\<Union>a \<in> set (atoms s). component_of (bonds s) (a_id a))"
    by blast
  with cover have "v \<in> set (concat (map (map a_id \<circ> fst) ?cs))"
    by simp
  then obtain p where p: "p \<in> set ?cs" and vp: "v \<in> set (map a_id (fst p))"
    by auto
  from cp p have q: "set (fst p) \<subseteq> set (atoms s)"
    "set (map a_id (fst p)) = component_of (bonds s) (a_id (hd (fst p)))"
    "snd p \<longleftrightarrow> (\<forall>a \<in> set (fst p). at_valency a)"
    by blast+
  from vp q(2) have k: "component_of (bonds s) v = set (map a_id (fst p))"
    using component_eq by blast
  have "\<forall>a \<in> set (fst p). at_valency a"
    using st q(1) k by (auto simp: stable_at_def)
  with q(3) have flag: "snd p" by simp
  from st k obtain w where "w \<in> set (map a_id (fst p))" "w \<noteq> v"
    by (auto simp: stable_at_def)
  with vp have "1 < length (map a_id (fst p))"
    by (intro long_list [of v _ w])
  with flag have "reported p"
    by (simp add: reported_def)
  with p have "fst p \<in> set (stableComponents s)"
    by (auto simp: stableComponents_def)
  with vp show "v \<in> set (toRemove s)"
    by (auto simp: toRemove_components)
qed

lemma addType_keys: "set (map fst (addType t kvs)) = insert t (set (map fst kvs))"
  by (induction t kvs rule: addType.induct) auto

lemma addType_distinct: "distinct (map fst kvs) \<Longrightarrow> distinct (map fst (addType t kvs))"
proof (induction kvs)
  case Nil
  then show ?case by simp
next
  case (Cons kv kvs)
  obtain k v where kv: "kv = (k, v)" by (cases kv)
  show ?case
  proof (cases "k = t")
    case True
    with Cons.prems kv show ?thesis by simp
  next
    case False
    from Cons.prems kv have "k \<notin> set (map fst kvs)" "distinct (map fst kvs)"
      by simp_all
    with False Cons.IH have "k \<notin> set (map fst (addType t kvs))" "distinct (map fst (addType t kvs))"
      by (simp_all only: addType_keys) simp_all
    with False kv show ?thesis by simp
  qed
qed

lemma addType_lookup:
  "map_of (addType t kvs) x
     = (if x = t then Some (case map_of kvs t of None \<Rightarrow> 1 | Some v \<Rightarrow> v + 1) else map_of kvs x)"
  by (induction t kvs rule: addType.induct) auto

lemma fold_addType_distinct:
  "distinct (map fst kvs) \<Longrightarrow> distinct (map fst (fold (\<lambda>a. addType (a_type a)) c kvs))"
  by (induction c arbitrary: kvs) (simp_all add: addType_distinct)

lemma fold_addType_lookup:
  "map_of (fold (\<lambda>a. addType (a_type a)) c kvs) t
       = (if count_list (map a_type c) t = 0 then map_of kvs t
          else Some (int (count_list (map a_type c) t)
                     + (case map_of kvs t of None \<Rightarrow> 0 | Some v \<Rightarrow> v)))"
proof (induction c arbitrary: kvs)
  case Nil
  then show ?case by simp
next
  case (Cons a c)
  show ?case
  proof (cases "a_type a = t")
    case True
    then show ?thesis
      by (cases "map_of kvs t") (simp_all add: Cons.IH addType_lookup)
  next
    case False
    then have "map_of (addType (a_type a) kvs) t = map_of kvs t"
      by (simp add: addType_lookup)
    with False show ?thesis
      by (simp add: Cons.IH)
  qed
qed

lemma composition_counts:
  "distinct (map fst (composition c))"
  "map_of (composition c) t
     = (if count_list (map a_type c) t = 0 then None else Some (int (count_list (map a_type c) t)))"
  using fold_addType_distinct [of "[]" c] fold_addType_lookup [of c "[]" t]
  by (simp_all add: composition_def)

text \<open>
  C3. On a store whose atom identifiers are unique and whose bonds join stored atoms, one
  scan reports a list of components such that: each is a whole connected component of
  the bond graph, listed without repetition, all of whose atoms are at their valency,
  with at least two atoms; no identifier occurs in two of them; an atom is in one of
  them exactly when its component is stable (every member at its valency, at least two
  members). For each the scan emits one score of 100 per atom and one composition
  giving, for every type, the number of member atoms of that type. Exactly the atoms of
  stable components are removed, with every bond that touches one.
\<close>

theorem stability_detector:
  assumes "store_ok (atoms s) (bonds s)"
  shows "(\<forall>c \<in> set (stableComponents s).
            c \<noteq> [] \<and> set c \<subseteq> set (atoms s) \<and> distinct (map a_id c)
          \<and> set (map a_id c) = component_of (bonds s) (a_id (hd c))
          \<and> (\<forall>a \<in> set c. currentBonds a = valency (ATOM_DEFS (a_type a)))
          \<and> 2 \<le> length c
          \<and> distinct (map fst (composition c))
          \<and> (\<forall>t. map_of (composition c) t
                  = (if count_list (map a_type c) t = 0 then None
                     else Some (int (count_list (map a_type c) t)))))
     \<and> distinct (concat (map (map a_id) (stableComponents s)))
     \<and> (\<forall>a \<in> set (atoms s).
           a_id a \<in> set (concat (map (map a_id) (stableComponents s)))
             \<longleftrightarrow> stable_at (atoms s) (bonds s) (a_id a))
     \<and> emitted (checkMolecules s)
          = emitted s @ concat (map (\<lambda>c. [ScoreUpdate (int (length c) * 100),
                                            IdentifyMolecule (composition c)]) (stableComponents s))
     \<and> atoms (checkMolecules s) = filter (\<lambda>a. \<not> stable_at (atoms s) (bonds s) (a_id a)) (atoms s)
     \<and> bonds (checkMolecules s)
          = filter (\<lambda>b. \<not> stable_at (atoms s) (bonds s) (atom1Id b)
                      \<and> \<not> stable_at (atoms s) (bonds s) (atom2Id b)) (bonds s)"
proof -
  note p = stableComponents_props [OF assms]
  note tr = toRemove_stable [OF assms]
  have 1: "\<forall>c \<in> set (stableComponents s).
            c \<noteq> [] \<and> set c \<subseteq> set (atoms s) \<and> distinct (map a_id c)
          \<and> set (map a_id c) = component_of (bonds s) (a_id (hd c))
          \<and> (\<forall>a \<in> set c. currentBonds a = valency (ATOM_DEFS (a_type a)))
          \<and> 2 \<le> length c
          \<and> distinct (map fst (composition c))
          \<and> (\<forall>t. map_of (composition c) t
                  = (if count_list (map a_type c) t = 0 then None
                     else Some (int (count_list (map a_type c) t))))"
    using p(1) composition_counts by (simp add: at_valency_def)
  have 3: "\<forall>a \<in> set (atoms s).
           a_id a \<in> set (concat (map (map a_id) (stableComponents s)))
             \<longleftrightarrow> stable_at (atoms s) (bonds s) (a_id a)"
    using tr by (simp add: toRemove_components)
  have 4: "emitted (checkMolecules s)
          = emitted s @ concat (map (\<lambda>c. [ScoreUpdate (int (length c) * 100),
                                            IdentifyMolecule (composition c)]) (stableComponents s))"
  proof -
    have "announce = (\<lambda>c. [ScoreUpdate (int (length c) * 100), IdentifyMolecule (composition c)])"
      by (rule ext) (simp add: announce_def)
    then show ?thesis
      by (simp add: checkMolecules_fields scanOut_components)
  qed
  have 5: "atoms (checkMolecules s) = filter (\<lambda>a. \<not> stable_at (atoms s) (bonds s) (a_id a)) (atoms s)"
    unfolding checkMolecules_fields using tr by (intro filter_cong refl) simp
  have ends: "atom1Id b \<in> set (map a_id (atoms s)) \<and> atom2Id b \<in> set (map a_id (atoms s))"
    if "b \<in> set (bonds s)" for b
    using assms that by (simp add: store_ok_def)
  have 6: "bonds (checkMolecules s)
          = filter (\<lambda>b. \<not> stable_at (atoms s) (bonds s) (atom1Id b)
                      \<and> \<not> stable_at (atoms s) (bonds s) (atom2Id b)) (bonds s)"
    unfolding checkMolecules_fields using tr ends by (intro filter_cong refl) simp
  from 1 p(2) 3 4 5 6 show ?thesis
    by blast
qed

lemma stableComponents_water:
  "stableComponents water =
     [[still_atom ''h1'' Atom_H 100 100 1, still_atom ''o1'' Atom_O 170 100 2,
       still_atom ''h2'' Atom_H 240 100 1]]"
  by (simp add: stableComponents_def water_def initial_def still_atom_def neighborIds_def reported_def)

theorem stability_detector_witness:
  "store_ok (atoms water) (bonds water)
   \<and> emitted (checkMolecules water) = [ScoreUpdate 300, IdentifyMolecule [(Atom_H, 2), (Atom_O, 1)]]
   \<and> stable_at (atoms water) (bonds water) ''o1''
   \<and> \<not> stable_at (atoms water) (bonds water) ''c1''
   \<and> map a_id (atoms (checkMolecules water)) = [''c1'', ''h3'']
   \<and> map b_id (bonds (checkMolecules water)) = [''k3'']"
proof -
  have ok: "store_ok (atoms water) (bonds water)"
    by (simp add: store_ok_def water_def still_atom_def)
  note t = stability_detector [OF ok, unfolded stableComponents_water]
  have o: "still_atom ''o1'' Atom_O 170 100 2 \<in> set (atoms water)"
    and c: "still_atom ''c1'' Atom_C 300 300 1 \<in> set (atoms water)"
    by (simp_all add: water_def)
  from t o have 1: "stable_at (atoms water) (bonds water) ''o1''"
    by (auto simp: still_atom_def)
  from t c have 2: "\<not> stable_at (atoms water) (bonds water) ''c1''"
    by (auto simp: still_atom_def)
  from t have 3: "emitted (checkMolecules water) = [ScoreUpdate 300, IdentifyMolecule [(Atom_H, 2), (Atom_O, 1)]]"
    by (simp add: water_def initial_def composition_def still_atom_def)
  have 4: "map a_id (atoms (checkMolecules water)) = [''c1'', ''h3'']"
    "map b_id (bonds (checkMolecules water)) = [''k3'']"
    by (simp_all add: checkMolecules_fields toRemove_components stableComponents_water)
       (simp_all add: water_def still_atom_def)
  from ok 1 2 3 4 show ?thesis
    by blast
qed

section \<open>The store invariant: congruence, spawning, bond creation and the scan\<close>

lemma core_ids: "map core as' = map core as \<Longrightarrow> map a_id as' = map a_id as"
proof -
  assume "map core as' = map core as"
  then have "map (fst \<circ> core) as' = map (fst \<circ> core) as"
    by (metis map_map)
  moreover have "fst \<circ> core = a_id"
    by (rule ext) (simp add: core_def)
  ultimately show ?thesis by simp
qed

lemma ball_core_cong:
  assumes "map core as' = map core as"
  shows "(\<forall>a \<in> set as'. Q (core a)) = (\<forall>a \<in> set as. Q (core a))"
proof -
  have "(\<forall>a \<in> set as'. Q (core a)) = (\<forall>c \<in> set (map core as'). Q c)"
    by simp
  also have "\<dots> = (\<forall>c \<in> set (map core as). Q c)"
    by (simp only: assms)
  also have "\<dots> = (\<forall>a \<in> set as. Q (core a))"
    by simp
  finally show ?thesis .
qed

lemma store_ok_cong:
  assumes "map core as' = map core as"
  shows "store_ok as' bs = store_ok as bs"
  unfolding store_ok_def core_ids [OF assms] ..

lemma counted_cong:
  assumes "map core as' = map core as"
  shows "(\<forall>a \<in> set as'. currentBonds a = degree bs (a_id a))
       = (\<forall>a \<in> set as. currentBonds a = degree bs (a_id a))"
  using ball_core_cong [OF assms, of "\<lambda>c. fst (snd (snd c)) = degree bs (fst c)"]
  by (simp add: core_def)

lemma stable_cong:
  assumes "map core as' = map core as"
  shows "stable_at as' bs v = stable_at as bs v"
  using ball_core_cong [OF assms,
    of "\<lambda>c. fst c \<in> component_of bs v \<longrightarrow> fst (snd (snd c)) = valency (ATOM_DEFS (fst (snd c)))"]
  by (simp add: stable_at_def at_valency_def core_def)

lemma sound_cong:
  assumes "map core as' = map core as"
  shows "sound as' bs = sound as bs"
  unfolding sound_def store_ok_cong [OF assms] counted_cong [OF assms] within_valency_cong [OF assms] ..

lemma settled_cong:
  assumes "map core as' = map core as"
  shows "settled as' bs = settled as bs"
proof -
  have e: "settled xs bs = (\<forall>v \<in> set (map a_id xs). \<not> stable_at xs bs v)" for xs
    by (simp add: settled_def)
  show ?thesis
    unfolding e core_ids [OF assms] stable_cong [OF assms] ..
qed

lemma degree_absent:
  assumes "store_ok as bs" "v \<notin> set (map a_id as)"
  shows "degree bs v = 0"
proof -
  from assms have "\<forall>b \<in> set bs. atom1Id b \<noteq> v \<and> atom2Id b \<noteq> v"
    by (auto simp: store_ok_def)
  then show ?thesis
    by (simp add: degree_def filter_False)
qed

lemma ids_closed: "store_ok as bs \<Longrightarrow> bond_closed bs (set (map a_id as))"
  using adjacent_in_store unfolding bond_closed_def by blast

lemma component_absent:
  assumes "store_ok as bs" "v \<notin> set (map a_id as)"
  shows "component_of bs v = {v}"
proof -
  have "adjacent bs `` {v} = {}"
    using adjacent_in_store [OF assms(1)] assms(2) by blast
  have e: "adjacent bs `` {v} = {}"
    using adjacent_in_store [OF assms(1)] assms(2) by blast
  have "w = v" if "(v, w) \<in> (adjacent bs)\<^sup>*" for w
    using that e by (induction rule: converse_rtrancl_induct) auto
  then show ?thesis
    by (auto simp: component_of_def)
qed

lemma sound_append:
  assumes s: "sound as bs" and new: "a_id n \<notin> set (map a_id as)" and c: "currentBonds n = 0"
  shows "sound (as @ [n]) bs"
proof -
  from s have ok: "store_ok as bs" by (simp add: sound_def)
  have "store_ok (as @ [n]) bs"
    using ok new by (auto simp: store_ok_def)
  moreover have "currentBonds n = degree bs (a_id n)"
    using degree_absent [OF ok new] c by simp
  moreover have "within_valency (as @ [n])"
    using s c valency_pos [of "a_type n"] by (auto simp: sound_def within_valency_def)
  ultimately show ?thesis
    using s by (auto simp: sound_def)
qed

lemma settled_append:
  assumes ok: "store_ok as bs" and st: "settled as bs" and new: "a_id n \<notin> set (map a_id as)"
  shows "settled (as @ [n]) bs"
proof -
  have old: "\<not> stable_at (as @ [n]) bs (a_id a)" if a: "a \<in> set as" for a
  proof
    assume x: "stable_at (as @ [n]) bs (a_id a)"
    then have "stable_at as bs (a_id a)"
      by (auto simp: stable_at_def)
    with st a show False by (simp add: settled_def)
  qed
  have "\<not> stable_at (as @ [n]) bs (a_id n)"
    using component_absent [OF ok new] by (simp add: stable_at_def)
  with old show ?thesis
    by (auto simp: settled_def)
qed

lemma spawnAtom_cases:
  "spawnAtom d as = as
   \<or> (\<exists>w h ty. spawnAtom d as = as @ [new_atom d w h ty])"
  by (auto simp: spawnAtom_def Let_def split: option.splits)

lemma sound_spawning:
  assumes "sound (atoms s) (bonds s)" "settled (atoms s) (bonds s)"
    and "spawn_due i s \<Longrightarrow> fresh_id (draws i) \<notin> set (map a_id (atoms s))"
  shows "sound (atoms (spawning i s)) (bonds (spawning i s))
       \<and> settled (atoms (spawning i s)) (bonds (spawning i s))"
proof (cases "spawn_due i s")
  case False
  then have "spawning i s = s" by (auto simp: spawning_def)
  with assms(1,2) show ?thesis by simp
next
  case True
  from assms(3) [OF True] have fresh: "fresh_id (draws i) \<notin> set (map a_id (atoms s))" .
  from assms(1) have ok: "store_ok (atoms s) (bonds s)" by (simp add: sound_def)
  from spawnAtom_cases [of "draws i" "atoms s"] show ?thesis
  proof
    assume "spawnAtom (draws i) (atoms s) = atoms s"
    with True assms(1,2) show ?thesis by (simp add: spawning_def)
  next
    assume "\<exists>w h ty. spawnAtom (draws i) (atoms s) = atoms s @ [new_atom (draws i) w h ty]"
    then obtain w h ty where e: "spawnAtom (draws i) (atoms s) = atoms s @ [new_atom (draws i) w h ty]"
      by blast
    have 1: "sound (atoms s @ [new_atom (draws i) w h ty]) (bonds s)"
      using assms(1) fresh by (intro sound_append) (simp_all add: new_atom_fields)
    have 2: "settled (atoms s @ [new_atom (draws i) w h ty]) (bonds s)"
      using ok assms(2) fresh by (intro settled_append) (simp_all add: new_atom_fields)
    from 1 2 True e show ?thesis by (simp add: spawning_def)
  qed
qed

lemma ids_update:
  assumes "a_id x = a_id (xs ! k)"
  shows "map a_id (xs[k := x]) = map a_id xs"
proof (cases "k < length xs")
  case True
  with assms show ?thesis
    by (simp add: map_update) (metis list_update_id map_update)
next
  case False
  then have "xs[k := x] = xs" by (simp add: list_update_beyond not_less)
  then show ?thesis by simp
qed

lemma degree_append: "degree (xs @ ys) v = degree xs v + degree ys v"
  by (simp add: degree_def)

lemma degree_single:
  "degree [b] v = (if atom1Id b = v then 1 else 0) + (if atom2Id b = v then 1 else 0)"
  by (simp add: degree_def)

lemma sound_createBond:
  assumes c: "bondCandidate s = Some (i, j)" and snd: "sound (atoms s) (bonds s)"
  shows "sound (atoms (createBond bid i j s)) (bonds (createBond bid i j s))"
proof -
  let ?as = "atoms s" and ?bs = "bonds s"
  let ?ai = "(?as ! i)\<lparr>currentBonds := currentBonds (?as ! i) + 1\<rparr>"
  let ?aj = "(?as ! j)\<lparr>currentBonds := currentBonds (?as ! j) + 1\<rparr>"
  let ?as' = "?as[i := ?ai, j := ?aj]"
  let ?b = "\<lparr>b_id = bid, atom1Id = a_id (?as ! i), atom2Id = a_id (?as ! j), stress = 0\<rparr>"
  note b = bondCandidate_Some [OF c]
  from b(3) have ij: "i \<noteq> j" by auto
  from snd have ok: "store_ok ?as ?bs" and d: "distinct (map a_id ?as)"
    and cnt: "\<forall>a \<in> set ?as. currentBonds a = degree ?bs (a_id a)"
    and lf: "\<forall>b \<in> set ?bs. atom1Id b \<noteq> atom2Id b"
    by (simp_all add: sound_def store_ok_def)
  have e: "atoms (createBond bid i j s) = ?as'" "bonds (createBond bid i j s) = ?bs @ [?b]"
    by (simp_all add: createBond_def Let_def)
  have ids1: "map a_id (?as[i := ?ai]) = map a_id ?as"
    by (rule ids_update) simp
  have "a_id ?aj = a_id (?as[i := ?ai] ! j)"
    using ij by simp
  then have "map a_id ?as' = map a_id (?as[i := ?ai])"
    by (rule ids_update)
  with ids1 have ids: "map a_id ?as' = map a_id ?as"
    by simp
  have mem: "a_id (?as ! i) \<in> set (map a_id ?as)" "a_id (?as ! j) \<in> set (map a_id ?as)"
    using b(1,2) by simp_all
  have ok': "store_ok ?as' (?bs @ [?b])"
    using ok mem unfolding store_ok_def ids by auto
  have lf': "\<forall>b \<in> set (?bs @ [?b]). atom1Id b \<noteq> atom2Id b"
    using lf b(3) by auto
  have other: "a_id (?as ! k) \<noteq> a_id (?as ! i)" if "k < length ?as" "k \<noteq> i" for k
    using d that b(1) by (metis distinct_conv_nth length_map nth_map)
  have other': "a_id (?as ! k) \<noteq> a_id (?as ! j)" if "k < length ?as" "k \<noteq> j" for k
    using d that b(2) by (metis distinct_conv_nth length_map nth_map)
  have cnt': "\<forall>a \<in> set ?as'. currentBonds a = degree (?bs @ [?b]) (a_id a)"
  proof
    fix a
    assume "a \<in> set ?as'"
    then obtain k where k: "k < length ?as" "a = ?as' ! k"
      by (auto simp: in_set_conv_nth)
    have old: "currentBonds (?as ! k) = degree ?bs (a_id (?as ! k))"
      using cnt k(1) by simp
    consider "k = j" | "k = i" "k \<noteq> j" | "k \<noteq> i" "k \<noteq> j"
      by blast
    then show "currentBonds a = degree (?bs @ [?b]) (a_id a)"
    proof cases
      case 1
      with k old b(3) show ?thesis
        by (simp add: degree_append degree_single)
    next
      case 2
      with k old b(3) b(1) show ?thesis
        by (simp add: degree_append degree_single)
    next
      case 3
      with k old other [of k] other' [of k] show ?thesis
        by (simp add: degree_append degree_single)
    qed
  qed
  from snd have "within_valency ?as"
    by (simp add: sound_def)
  from within_valency_createBond [OF c this, of bid] have "within_valency ?as'"
    by (simp only: e)
  with ok' lf' cnt' show ?thesis
    unfolding e sound_def by blast
qed

lemma stable_component_eq:
  assumes "w \<in> component_of bs v"
  shows "stable_at as bs w = stable_at as bs v"
proof -
  from component_eq [OF assms] have k: "component_of bs w = component_of bs v" .
  have v: "v \<in> component_of bs v"
    by (rule component_refl)
  have "(\<exists>x \<in> component_of bs v. x \<noteq> w) = (\<exists>x \<in> component_of bs v. x \<noteq> v)"
    using assms v by metis
  then show ?thesis
    by (simp add: stable_at_def k)
qed

lemma removed_closed:
  assumes ok: "store_ok (atoms s) (bonds s)"
  shows "bond_closed (bonds s) (set (toRemove s))"
  unfolding bond_closed_def
proof (intro ballI subsetI)
  fix v w
  assume v: "v \<in> set (toRemove s)" and w: "w \<in> adjacent (bonds s) `` {v}"
  from w have adj: "(v, w) \<in> adjacent (bonds s)"
    by simp
  then have "w \<in> component_of (bonds s) v"
    by (auto simp: component_of_def)
  from stable_component_eq [OF this] v have "stable_at (atoms s) (bonds s) w"
    by (simp add: toRemove_stable [OF ok])
  moreover have "w \<in> set (map a_id (atoms s))"
    using adjacent_in_store [OF ok adj] by simp
  ultimately show "w \<in> set (toRemove s)"
    by (simp add: toRemove_stable [OF ok])
qed

lemma degree_filter:
  assumes "\<forall>b \<in> set bs. atom1Id b = v \<or> atom2Id b = v \<longrightarrow> P b"
  shows "degree (filter P bs) v = degree bs v"
proof -
  have "filter (\<lambda>b. atom1Id b = v) (filter P bs) = filter (\<lambda>b. atom1Id b = v) bs"
    unfolding filter_filter using assms by (intro filter_cong refl) blast
  moreover have "filter (\<lambda>b. atom2Id b = v) (filter P bs) = filter (\<lambda>b. atom2Id b = v) bs"
    unfolding filter_filter using assms by (intro filter_cong refl) blast
  ultimately show ?thesis
    by (simp add: degree_def)
qed

lemma adjacent_filter: "adjacent (filter P bs) \<subseteq> adjacent bs"
  by (auto simp: adjacent_def)

lemma component_mono:
  assumes "adjacent bs' \<subseteq> adjacent bs"
  shows "component_of bs' v \<subseteq> component_of bs v"
  unfolding component_of_def using rtrancl_mono [OF assms] by blast

lemma component_filter:
  assumes cl: "bond_closed bs R" and v: "v \<notin> R"
  shows "component_of (filter (\<lambda>b. atom1Id b \<notin> R \<and> atom2Id b \<notin> R) bs) v = component_of bs v"
proof
  let ?bs' = "filter (\<lambda>b. atom1Id b \<notin> R \<and> atom2Id b \<notin> R) bs"
  show "component_of ?bs' v \<subseteq> component_of bs v"
    by (rule component_mono) (rule adjacent_filter)
  have out: "component_of bs v \<inter> R = {}"
    using closed_component_outside [OF cl v] .
  have "(v, w) \<in> (adjacent ?bs')\<^sup>*" if "(v, w) \<in> (adjacent bs)\<^sup>*" for w
    using that
  proof (induction rule: rtrancl_induct)
    case base
    show ?case by simp
  next
    case (step x y)
    from step.hyps(1) have x: "x \<notin> R"
      using out by (auto simp: component_of_def)
    from step.hyps(1,2) have "(v, y) \<in> (adjacent bs)\<^sup>*"
      by (rule rtrancl_into_rtrancl)
    then have y: "y \<notin> R"
      using out by (auto simp: component_of_def)
    from step.hyps(2) x y have "(x, y) \<in> adjacent ?bs'"
      by (auto simp: adjacent_def)
    with step.IH show ?case
      by (rule rtrancl_into_rtrancl)
  qed
  then show "component_of bs v \<subseteq> component_of ?bs' v"
    by (auto simp: component_of_def)
qed

lemma sound_checkMolecules:
  assumes snd: "sound (atoms s) (bonds s)"
  shows "sound (atoms (checkMolecules s)) (bonds (checkMolecules s))"
    and "settled (atoms (checkMolecules s)) (bonds (checkMolecules s))"
proof -
  let ?as = "atoms s" and ?bs = "bonds s" and ?R = "set (toRemove s)"
  let ?as' = "filter (\<lambda>a. a_id a \<notin> ?R) ?as"
  let ?bs' = "filter (\<lambda>b. atom1Id b \<notin> ?R \<and> atom2Id b \<notin> ?R) ?bs"
  from snd have ok: "store_ok ?as ?bs" and d: "distinct (map a_id ?as)"
    and cnt: "\<forall>a \<in> set ?as. currentBonds a = degree ?bs (a_id a)"
    and lf: "\<forall>b \<in> set ?bs. atom1Id b \<noteq> atom2Id b" and wv: "within_valency ?as"
    by (simp_all add: sound_def store_ok_def)
  note cl = removed_closed [OF ok]
  note tr = toRemove_stable [OF ok]
  have ok': "store_ok ?as' ?bs'"
    using ok by (auto simp: store_ok_def distinct_map_filter)
  have touch: "atom1Id b \<notin> ?R \<and> atom2Id b \<notin> ?R"
    if b: "b \<in> set ?bs" and v: "atom1Id b = v \<or> atom2Id b = v" and out: "v \<notin> ?R" for b v
  proof -
    from b have "(atom1Id b, atom2Id b) \<in> adjacent ?bs" "(atom2Id b, atom1Id b) \<in> adjacent ?bs"
      by (auto simp: adjacent_def)
    with cl have "atom1Id b \<in> ?R \<longleftrightarrow> atom2Id b \<in> ?R"
      unfolding bond_closed_def by blast
    with v out show ?thesis by blast
  qed
  have cnt': "\<forall>a \<in> set ?as'. currentBonds a = degree ?bs' (a_id a)"
  proof
    fix a
    assume "a \<in> set ?as'"
    then have a: "a \<in> set ?as" "a_id a \<notin> ?R" by simp_all
    have "degree ?bs' (a_id a) = degree ?bs (a_id a)"
      using touch a(2) by (intro degree_filter) blast
    with cnt a(1) show "currentBonds a = degree ?bs' (a_id a)" by simp
  qed
  have "within_valency ?as'"
    using wv by (rule within_valency_filter)
  with ok' cnt' lf show "sound (atoms (checkMolecules s)) (bonds (checkMolecules s))"
    unfolding checkMolecules_fields sound_def by simp
  have "\<not> stable_at ?as' ?bs' (a_id a)" if a: "a \<in> set ?as'" for a
  proof
    assume st: "stable_at ?as' ?bs' (a_id a)"
    from a have am: "a \<in> set ?as" and out: "a_id a \<notin> ?R" by simp_all
    have k: "component_of ?bs' (a_id a) = component_of ?bs (a_id a)"
      using cl out by (rule component_filter)
    have disj: "component_of ?bs (a_id a) \<inter> ?R = {}"
      using closed_component_outside [OF cl out] .
    have "\<forall>x \<in> set ?as. a_id x \<in> component_of ?bs (a_id a) \<longrightarrow> at_valency x"
    proof (intro ballI impI)
      fix x
      assume x: "x \<in> set ?as" "a_id x \<in> component_of ?bs (a_id a)"
      with disj have "x \<in> set ?as'" by auto
      with st x(2) show "at_valency x"
        by (simp add: stable_at_def k)
    qed
    moreover from st have "\<exists>w \<in> component_of ?bs (a_id a). w \<noteq> a_id a"
      by (simp add: stable_at_def k)
    ultimately have "stable_at ?as ?bs (a_id a)"
      by (simp add: stable_at_def)
    with am have "a_id a \<in> ?R"
      by (simp add: tr)
    with out show False by simp
  qed
  then show "settled (atoms (checkMolecules s)) (bonds (checkMolecules s))"
    unfolding checkMolecules_fields settled_def by blast
qed

section \<open>The store invariant: undo, steps and runs\<close>

lemma bonds_without:
  assumes "n < length bs"
  shows "set bs = insert (bs ! n) (set (take n bs @ drop (Suc n) bs))"
    and "degree bs v = degree (take n bs @ drop (Suc n) bs) v + degree [bs ! n] v"
proof -
  from assms have e: "take n bs @ bs ! n # drop (Suc n) bs = bs"
    by (simp add: id_take_nth_drop [symmetric])
  then have "set (take n bs @ bs ! n # drop (Suc n) bs) = set bs"
    by (rule arg_cong)
  then show "set bs = insert (bs ! n) (set (take n bs @ drop (Suc n) bs))"
    by auto
  from e have "degree (take n bs @ bs ! n # drop (Suc n) bs) v = degree bs v"
    by (rule arg_cong)
  then show "degree bs v = degree (take n bs @ drop (Suc n) bs) v + degree [bs ! n] v"
    by (auto simp: degree_def)
qed

lemma in_map_source: "y \<in> set (map f xs) \<Longrightarrow> \<exists>x \<in> set xs. y = f x"
  by auto

lemma degree_nonneg: "0 \<le> degree bs v"
  by (simp add: degree_def)

lemma sound_undoBond:
  assumes n: "n < length (bonds s)"
    and snd: "sound (atoms s) (bonds s)" and st: "settled (atoms s) (bonds s)"
  shows "sound (atoms (undoBond n s)) (bonds (undoBond n s))
       \<and> settled (atoms (undoBond n s)) (bonds (undoBond n s))"
proof -
  define as where "as = atoms s"
  define bs where "bs = bonds s"
  define b where "b = bs ! n"
  define v1 where "v1 = atom1Id b"
  define v2 where "v2 = atom2Id b"
  define bs' where "bs' = take n bs @ drop (Suc n) bs"
  define f where "f = (\<lambda>a. if a_id a = v1 \<or> a_id a = v2 then released a else a)"
  define as' where "as' = map f as"
  from snd have ok: "store_ok as bs" and d: "distinct (map a_id as)"
    and cnt: "\<forall>a \<in> set as. currentBonds a = degree bs (a_id a)"
    and lf: "\<forall>b \<in> set bs. atom1Id b \<noteq> atom2Id b" and wv: "within_valency as"
    by (simp_all add: sound_def store_ok_def as_def bs_def)
  from n have nb: "n < length bs" by (simp add: bs_def)
  then have bm: "b \<in> set bs" by (simp add: b_def)
  with lf have ne: "v1 \<noteq> v2" by (auto simp: v1_def v2_def)
  have w1: "set bs = insert b (set bs')"
    using bonds_without(1) [OF nb] by (simp add: b_def bs'_def)
  have sub: "set bs' \<subseteq> set bs"
    using w1 by blast
  have ea: "atoms (undoBond n s) = as'"
    using decrementBonds_both [OF d ne]
    by (simp add: undoBond_def Let_def as'_def f_def v1_def v2_def b_def bs_def as_def)
  have eb: "bonds (undoBond n s) = bs'"
    by (simp add: undoBond_def Let_def bs'_def bs_def)
  have f_id: "a_id (f a) = a_id a" for a
    by (simp add: f_def released_def)
  have f_ty: "a_type (f a) = a_type a" for a
    by (simp add: f_def released_def)
  have ids: "map a_id as' = map a_id as"
    by (simp add: as'_def f_id)
  have ok': "store_ok as' bs'"
    using ok sub unfolding store_ok_def ids by blast
  have lf': "\<forall>b \<in> set bs'. atom1Id b \<noteq> atom2Id b"
    using lf sub by blast
  have deg: "degree bs v = degree bs' v + (if v1 = v then 1 else 0) + (if v2 = v then 1 else 0)" for v
    using bonds_without(2) [OF nb, of v] by (simp add: degree_single b_def bs'_def v1_def v2_def)
  have deg_end: "degree bs v = degree bs' v + 1" if "v = v1 \<or> v = v2" for v
    using deg [of v] that ne by auto
  have deg_other: "degree bs v = degree bs' v" if "v \<noteq> v1" "v \<noteq> v2" for v
    using deg [of v] that by auto
  have cnt': "\<forall>a \<in> set as'. currentBonds a = degree bs' (a_id a)"
  proof
    fix a'
    assume "a' \<in> set as'"
    then have "a' \<in> set (map f as)" by (simp only: as'_def)
    from in_map_source [OF this] obtain a where a: "a \<in> set as" "a' = f a" by blast
    from cnt a(1) have c: "currentBonds a = degree bs (a_id a)" by (rule bspec)
    show "currentBonds a' = degree bs' (a_id a')"
    proof (cases "a_id a = v1 \<or> a_id a = v2")
      case True
      from deg_end [OF True] c degree_nonneg [of bs' "a_id a"]
      have "max 0 (currentBonds a - 1) = degree bs' (a_id a)"
        by simp
      moreover from True have "f a = released a"
        by (simp add: f_def)
      ultimately show ?thesis
        by (simp add: a(2) released_def)
    next
      case False
      then have "f a = a" by (simp add: f_def)
      moreover from False deg_other [of "a_id a"] have "degree bs (a_id a) = degree bs' (a_id a)"
        by simp
      ultimately show ?thesis
        using c by (simp add: a(2))
    qed
  qed
  have wv': "within_valency as'"
  proof -
    have "within_valency (decrementBonds v2 (decrementBonds v1 as))"
      using wv by (intro within_valency_decrementBonds)
    then show ?thesis
      by (simp add: decrementBonds_both [OF d ne] as'_def f_def)
  qed
  have snd': "sound as' bs'"
    using ok' lf' cnt' wv' by (simp add: sound_def)
  have endpoint: "v \<notin> component_of bs' u"
    if su: "stable_at as' bs' u" and v: "v = v1 \<or> v = v2" for u v
  proof
    assume in_k: "v \<in> component_of bs' u"
    from ok bm v have "v \<in> set (map a_id as)"
      by (auto simp: store_ok_def v1_def v2_def)
    from in_map_source [OF this] obtain a where a: "a \<in> set as" "v = a_id a" by blast
    with v have fa: "f a = released a" by (simp add: f_def)
    have "f a \<in> set as'"
      using a(1) by (simp add: as'_def)
    moreover have "a_id (f a) \<in> component_of bs' u"
      using in_k a(2) by (simp add: f_id)
    ultimately have "at_valency (f a)"
      using su unfolding stable_at_def by blast
    then have r: "max 0 (currentBonds a - 1) = valency (ATOM_DEFS (a_type a))"
      by (simp add: at_valency_def fa released_def)
    from cnt a(1) have "currentBonds a = degree bs (a_id a)" by (rule bspec)
    with deg_end [of "a_id a"] v a(2) degree_nonneg [of bs' "a_id a"] have "1 \<le> currentBonds a"
      by simp
    with r have "currentBonds a = valency (ATOM_DEFS (a_type a)) + 1"
      by simp
    moreover from wv a(1) have "currentBonds a \<le> valency (ATOM_DEFS (a_type a))"
      by (simp add: within_valency_def)
    ultimately show False by simp
  qed
  have "\<not> stable_at as' bs' (a_id a')" if "a' \<in> set as'" for a'
  proof
    assume su: "stable_at as' bs' (a_id a')"
    from that have "a' \<in> set (map f as)" by (simp only: as'_def)
    from in_map_source [OF this] obtain a where a: "a \<in> set as" "a' = f a" by blast
    then have id: "a_id a' = a_id a"
      by (simp add: f_id)
    define K where "K = component_of bs' (a_id a)"
    have o1: "v1 \<notin> K" and o2: "v2 \<notin> K"
      using endpoint [OF su] by (simp_all add: id K_def)
    have "bond_closed bs K"
      unfolding bond_closed_def
    proof (intro ballI subsetI)
      fix x y
      assume x: "x \<in> K" and "y \<in> adjacent bs `` {x}"
      then obtain c where c: "c \<in> set bs"
        "(atom1Id c = x \<and> atom2Id c = y) \<or> (atom1Id c = y \<and> atom2Id c = x)"
        by (auto simp: adjacent_def)
      from c(2) x o1 o2 have "c \<noteq> b" by (auto simp: v1_def v2_def)
      with c(1) w1 have "c \<in> set bs'" by blast
      with c(2) have "(x, y) \<in> adjacent bs'"
        unfolding adjacent_def by blast
      with closed_component_of [of bs' "a_id a"] x show "y \<in> K"
        unfolding bond_closed_def K_def by blast
    qed
    moreover have "a_id a \<in> K"
      unfolding K_def by (rule component_refl)
    ultimately have "component_of bs (a_id a) \<subseteq> K"
      by (rule closed_component)
    moreover have "adjacent bs' \<subseteq> adjacent bs"
      using sub unfolding adjacent_def by blast
    then have "K \<subseteq> component_of bs (a_id a)"
      unfolding K_def by (rule component_mono)
    ultimately have k: "component_of bs (a_id a) = K" by blast
    have "\<forall>x \<in> set as. a_id x \<in> component_of bs (a_id a) \<longrightarrow> at_valency x"
    proof (intro ballI impI)
      fix x
      assume x: "x \<in> set as" "a_id x \<in> component_of bs (a_id a)"
      with k o1 o2 have "a_id x \<noteq> v1" "a_id x \<noteq> v2" by auto
      then have "f x = x" by (simp add: f_def)
      with x(1) have "x \<in> set as'"
        unfolding as'_def by (metis imageI set_map)
      moreover from x(2) k have "a_id x \<in> component_of bs' (a_id a')"
        by (simp add: K_def id)
      ultimately show "at_valency x"
        using su unfolding stable_at_def by blast
    qed
    moreover from su have "\<exists>w \<in> component_of bs (a_id a). w \<noteq> a_id a"
      unfolding stable_at_def id k K_def by blast
    ultimately have "stable_at as bs (a_id a)"
      unfolding stable_at_def by blast
    moreover from st a(1) have "\<not> stable_at as bs (a_id a)"
      by (simp add: settled_def as_def bs_def)
    ultimately show False by simp
  qed
  then have "settled as' bs'"
    by (simp add: settled_def)
  with snd' show ?thesis
    unfolding ea eb by simp
qed

lemma steady_update:
  assumes inv: "sound (atoms s) (bonds s)" "settled (atoms s) (bonds s)"
    and fresh: "spawn_due i s \<Longrightarrow> fresh_id (draws i) \<notin> set (map a_id (atoms s))"
  shows "sound (atoms (update i s)) (bonds (update i s))
       \<and> settled (atoms (update i s)) (bonds (update i s))"
proof -
  let ?s1 = "spawning i s"
  let ?s2 = "beforeBond i s"
  let ?s3 = "bondAttempt (bond_uuid i) ?s2"
  from sound_spawning [OF inv fresh]
  have 1: "sound (atoms ?s1) (bonds ?s1)" "settled (atoms ?s1) (bonds ?s1)"
    by simp_all
  have b2: "bonds ?s2 = bonds ?s1"
    by (simp add: beforeBond_def physics_def)
  have c2: "map core (atoms ?s2) = map core (atoms ?s1)"
    unfolding beforeBond_def by (rule core_physics)
  have 2: "sound (atoms ?s2) (bonds ?s2)" "settled (atoms ?s2) (bonds ?s2)"
    using 1 unfolding b2 sound_cong [OF c2] settled_cong [OF c2] .
  have 3: "sound (atoms ?s3) (bonds ?s3) \<and> settled (atoms ?s3) (bonds ?s3)"
  proof (cases "bondCandidate ?s2")
    case None
    then have "?s3 = ?s2" by (simp add: bondAttempt_def)
    with 2 show ?thesis by simp
  next
    case (Some p)
    obtain d n where p: "p = (d, n)" by (cases p)
    from Some p have e: "?s3 = checkMolecules (createBond (bond_uuid i) d n ?s2)"
      by (simp add: bondAttempt_def)
    from Some p have "bondCandidate ?s2 = Some (d, n)" by simp
    from sound_createBond [OF this 2(1), of "bond_uuid i"]
    have "sound (atoms (createBond (bond_uuid i) d n ?s2)) (bonds (createBond (bond_uuid i) d n ?s2))" .
    from sound_checkMolecules [OF this] show ?thesis
      unfolding e by simp
  qed
  have b4: "bonds (update i s) = bonds ?s3"
    by (simp add: update_def render_def)
  have c4: "map core (atoms (update i s)) = map core (atoms ?s3)"
    unfolding update_def by (rule core_render)
  show ?thesis
    using 3 unfolding b4 sound_cong [OF c4] settled_cong [OF c4] .
qed

lemma steady_undo:
  assumes "sound (atoms s) (bonds s) \<and> settled (atoms s) (bonds s)"
  shows "sound (atoms (undo s)) (bonds (undo s)) \<and> settled (atoms (undo s)) (bonds (undo s))"
proof (rule undo_induct_rule [where P = "\<lambda>s. sound (atoms s) (bonds s) \<and> settled (atoms s) (bonds s)"])
  show "sound (atoms s) (bonds s) \<and> settled (atoms s) (bonds s)"
    by (rule assms)
next
  fix s :: arena and h
  assume "sound (atoms s) (bonds s) \<and> settled (atoms s) (bonds s)"
  then show "sound (atoms (s\<lparr>bondHistory := h\<rparr>)) (bonds (s\<lparr>bondHistory := h\<rparr>))
       \<and> settled (atoms (s\<lparr>bondHistory := h\<rparr>)) (bonds (s\<lparr>bondHistory := h\<rparr>))"
    by simp
next
  fix s :: arena and k
  let ?s1 = "s\<lparr>bondHistory := butlast (bondHistory s)\<rparr>"
  assume inv: "sound (atoms s) (bonds s) \<and> settled (atoms s) (bonds s)"
    and f: "findIndex (\<lambda>b. b_id b = last (bondHistory s)) (bonds s) = Some k"
  from findIndex_Some [OF f] have "k < length (bonds ?s1)" by simp
  moreover from inv have "sound (atoms ?s1) (bonds ?s1)" "settled (atoms ?s1) (bonds ?s1)"
    by simp_all
  ultimately show "sound (atoms (undoBond k ?s1)) (bonds (undoBond k ?s1))
       \<and> settled (atoms (undoBond k ?s1)) (bonds (undoBond k ?s1))"
    by (rule sound_undoBond)
qed

lemma steady_step:
  assumes inv: "sound (atoms s) (bonds s) \<and> settled (atoms s) (bonds s)"
    and adm: "admissible_event s e"
  shows "sound (atoms (step s e)) (bonds (step s e)) \<and> settled (atoms (step s e)) (bonds (step s e))"
proof (cases e)
  case (Tick i)
  with adm have "spawn_due i s \<Longrightarrow> fresh_id (draws i) \<notin> set (map a_id (atoms s))" by simp
  with inv steady_update [of s i] Tick show ?thesis by simp
next
  case (PointerDown x y)
  show ?thesis
    using inv unfolding PointerDown step.simps bonds_pointerDown
      sound_cong [OF core_pointerDown] settled_cong [OF core_pointerDown] .
next
  case (PointerMove x y)
  with inv show ?thesis by (simp add: handlePointerMove_def)
next
  case (PointerUp rx ry)
  show ?thesis
    using inv unfolding PointerUp step.simps bonds_pointerUp
      sound_cong [OF core_pointerUp] settled_cong [OF core_pointerUp] .
next
  case Undo
  with steady_undo [OF inv] show ?thesis by simp
next
  case Reset
  then show ?thesis
    by (simp add: reset_def sound_def settled_def store_ok_def within_valency_def)
qed

lemma steady_run:
  "sound (atoms s) (bonds s) \<and> settled (atoms s) (bonds s) \<Longrightarrow> admissible s es \<Longrightarrow>
     sound (atoms (run s es)) (bonds (run s es)) \<and> settled (atoms (run s es)) (bonds (run s es))"
proof (induction es arbitrary: s)
  case Nil
  then show ?case by simp
next
  case (Cons e es)
  from Cons.prems(2) have a: "admissible_event s e" "admissible (step s e) es"
    by simp_all
  from steady_step [OF Cons.prems(1) a(1)] a(2) show ?case
    by (simp add: Cons.IH)
qed

lemma steady_initial:
  "sound (atoms initial) (bonds initial) \<and> settled (atoms initial) (bonds initial)"
  by (simp add: initial_def sound_def settled_def store_ok_def within_valency_def)

lemma count_one:
  "distinct (map a_id as) \<Longrightarrow> v \<in> set (map a_id as) \<Longrightarrow>
     (\<Sum>a\<leftarrow>as. if v = a_id a then 1 else 0) = (1::int)"
proof (induction as)
  case Nil
  then show ?case by simp
next
  case (Cons a as)
  show ?case
  proof (cases "v = a_id a")
    case True
    with Cons.prems have "\<forall>x \<in> set as. v \<noteq> a_id x" by auto
    then have "(\<Sum>x\<leftarrow>as. if v = a_id x then 1 else 0) = (0::int)"
      by (induction as) simp_all
    with True show ?thesis by simp
  next
    case False
    with Cons show ?thesis by simp
  qed
qed

lemma sum_references:
  assumes d: "distinct (map a_id as)"
  shows "\<forall>b \<in> set bs. g b \<in> set (map a_id as) \<Longrightarrow>
     (\<Sum>a\<leftarrow>as. int (length (filter (\<lambda>b. g b = a_id a) bs))) = int (length bs)"
proof (induction bs)
  case Nil
  show ?case by simp
next
  case (Cons b bs)
  have "(\<Sum>a\<leftarrow>as. int (length (filter (\<lambda>b. g b = a_id a) (b # bs))))
      = (\<Sum>a\<leftarrow>as. (if g b = a_id a then 1 else 0) + int (length (filter (\<lambda>b. g b = a_id a) bs)))"
    by (intro arg_cong [where f = sum_list] map_cong refl) simp
  also have "\<dots> = (\<Sum>a\<leftarrow>as. if g b = a_id a then 1 else 0)
                  + (\<Sum>a\<leftarrow>as. int (length (filter (\<lambda>b. g b = a_id a) bs)))"
    by (rule sum_list_addf)
  also have "\<dots> = 1 + int (length bs)"
    using count_one [OF d, of "g b"] Cons by simp
  finally show ?case by simp
qed

lemma sum_degree:
  assumes "store_ok as bs"
  shows "(\<Sum>a\<leftarrow>as. degree bs (a_id a)) = 2 * int (length bs)"
proof -
  from assms have d: "distinct (map a_id as)"
    and 1: "\<forall>b \<in> set bs. atom1Id b \<in> set (map a_id as)"
    and 2: "\<forall>b \<in> set bs. atom2Id b \<in> set (map a_id as)"
    by (simp_all add: store_ok_def)
  have "(\<Sum>a\<leftarrow>as. degree bs (a_id a))
      = (\<Sum>a\<leftarrow>as. int (length (filter (\<lambda>b. atom1Id b = a_id a) bs)))
      + (\<Sum>a\<leftarrow>as. int (length (filter (\<lambda>b. atom2Id b = a_id a) bs)))"
    unfolding degree_def by (rule sum_list_addf)
  with sum_references [OF d 1] sum_references [OF d 2] show ?thesis
    by simp
qed

lemma sound_balance:
  assumes "sound as bs"
  shows "sum_list (map currentBonds as) = 2 * int (length bs)"
proof -
  from assms have e: "map currentBonds as = map (\<lambda>a. degree bs (a_id a)) as"
    by (intro map_cong refl) (simp add: sound_def)
  from assms have "store_ok as bs"
    by (simp add: sound_def)
  from sum_degree [OF this] show ?thesis
    unfolding e .
qed

lemma checkMolecules_fixed:
  assumes ok: "store_ok (atoms s) (bonds s)" and st: "settled (atoms s) (bonds s)"
  shows "checkMolecules s = s"
proof -
  have "set (toRemove s) = {}"
    using st unfolding toRemove_stable [OF ok] settled_def by auto
  then have tr: "toRemove s = []" by simp
  have cs: "stableComponents s = []"
  proof (cases "stableComponents s")
    case Nil
    then show ?thesis .
  next
    case (Cons c cs)
    with stableComponents_props(1) [OF ok] have "c \<noteq> []" by simp
    with Cons tr show ?thesis
      by (simp add: toRemove_components)
  qed
  have d: "(case draggedAtom s of None \<Rightarrow> None | Some d \<Rightarrow> Some d) = draggedAtom s"
    by (cases "draggedAtom s") simp_all
  have "checkMolecules s = s\<lparr>emitted := emitted s, atoms := atoms s, bonds := bonds s,
           draggedAtom := draggedAtom s\<rparr>"
    by (cases "draggedAtom s") (simp_all add: checkMolecules_eq [of s] tr scanOut_components cs)
  then show ?thesis by simp
qed

section \<open>Claims C2 and C7: balanced counts, and a scan after every change\<close>

lemma admissible_two_oxygens: "admissible initial two_oxygens"
  by (simp add: eval_defs)

lemma admissible_first_bond:
  "admissible initial (two_oxygens @ [PointerDown 28 100, Tick (frame 4016 ''b1'')])"
  by (simp add: admissible_append admissible_two_oxygens run_two_oxygens down_pair_loose)
     (simp add: pair_held_def oxygen_def frame_def)

text \<open>
  C2. In every state of every run (from the initial state, with fresh identifiers for new
  atoms), each atom's \<open>currentBonds\<close> is the number of bond records that reference it,
  and so the sum of \<open>currentBonds\<close> over all atoms is twice the number of bond records.
\<close>

theorem bond_counts_balance:
  assumes "admissible initial es"
  shows "sum_list (map currentBonds (atoms (run initial es))) = 2 * int (length (bonds (run initial es)))
       \<and> (\<forall>a \<in> set (atoms (run initial es)).
             currentBonds a = degree (bonds (run initial es)) (a_id a))"
proof -
  from steady_run [OF steady_initial assms]
  have s: "sound (atoms (run initial es)) (bonds (run initial es))"
    by simp
  from sound_balance [OF s] s show ?thesis
    by (simp add: sound_def)
qed

theorem bond_counts_balance_witness:
  "admissible initial (two_oxygens @ [PointerDown 28 100, Tick (frame 4016 ''b1'')])
   \<and> sum_list (map currentBonds (atoms pair_bonded)) = 2 * int (length (bonds pair_bonded))
   \<and> length (bonds pair_bonded) = 1
   \<and> currentBonds (oxygen ''o1'' 100 1 True (3/20)) = degree (bonds pair_bonded) ''o1''"
proof -
  note t = bond_counts_balance [OF admissible_first_bond, unfolded run_pair_bonded]
  have m: "oxygen ''o1'' 100 1 True (3/20) \<in> set (atoms pair_bonded)"
    by (simp add: pair_bonded_def)
  from t m have "currentBonds (oxygen ''o1'' 100 1 True (3/20))
       = degree (bonds pair_bonded) (a_id (oxygen ''o1'' 100 1 True (3/20)))"
    by blast
  then have "currentBonds (oxygen ''o1'' 100 1 True (3/20)) = degree (bonds pair_bonded) ''o1''"
    by (simp add: oxygen_def)
  moreover have "length (bonds pair_bonded) = 1"
    by (simp add: pair_bonded_def)
  ultimately show ?thesis
    using t admissible_first_bond by blast
qed

lemmas hh_defs = two_hydrogens_def spawn_top_def placed_def hh_loose_def hh_held_def hh_done_def

lemma run_two_hydrogens: "run initial two_hydrogens = hh_loose"
  by (simp add: eval_defs hh_defs)

lemma down_hh_loose: "handlePointerDown 70 20 hh_loose = hh_held"
  by (simp add: eval_defs hh_defs)

lemma update_hh_held: "update (frame 4016 ''b1'') hh_held = hh_done"
  by (simp add: eval_defs hh_defs)

lemma undo_hh_done: "undo hh_done = hh_done\<lparr>bondHistory := []\<rparr>"
  by (subst undo.simps, subst undo.simps) (simp add: hh_done_def)

lemma admissible_hydrogens:
  "admissible initial (two_hydrogens @ [PointerDown 70 20, Tick (frame 4016 ''b1''), Undo])"
  by (simp add: admissible_append run_two_hydrogens) (simp add: eval_defs hh_defs)

lemma run_hydrogens:
  "run initial (two_hydrogens @ [PointerDown 70 20, Tick (frame 4016 ''b1''), Undo])
     = hh_done\<lparr>bondHistory := []\<rparr>"
  by (simp add: run_append run_two_hydrogens down_hh_loose update_hh_held undo_hh_done)

lemma scanned_run_eq:
  "sound (atoms s) (bonds s) \<and> settled (atoms s) (bonds s) \<Longrightarrow> admissible s es \<Longrightarrow>
     scanned_run s es = run s es"
proof (induction es arbitrary: s)
  case Nil
  then show ?case by simp
next
  case (Cons e es)
  from Cons.prems(2) have a: "admissible_event s e" "admissible (step s e) es"
    by simp_all
  note inv = steady_step [OF Cons.prems(1) a(1)]
  then have "checkMolecules (step s e) = step s e"
    by (intro checkMolecules_fixed) (simp_all add: sound_def)
  then have "scanned_step s e = step s e"
    by (simp add: scanned_step_def)
  with Cons.IH [OF inv a(2)] show ?case
    by simp
qed

text \<open>
  C7. In every run, the state that an operation leaves is a state the stability scan has
  dealt with: no component of two or more atoms, all at their valency, is in the store,
  and a scan of it changes nothing and emits nothing. This holds after a tick that
  creates a bond, where \<open>update\<close> calls the scan, and after \<open>undo\<close>, which removes a bond
  and cannot complete a component. The engine is thereby indistinguishable from the one
  that runs a scan after every operation: the two reach the same state, with the same
  events emitted, on every run.
\<close>

theorem scan_after_every_operation:
  assumes "admissible initial es"
  shows "scanned_run initial es = run initial es
       \<and> checkMolecules (run initial es) = run initial es
       \<and> settled (atoms (run initial es)) (bonds (run initial es))
       \<and> checkMolecules (undo (run initial es)) = undo (run initial es)
       \<and> settled (atoms (undo (run initial es))) (bonds (undo (run initial es)))
       \<and> (admissible_event (run initial es) e \<longrightarrow>
            checkMolecules (step (run initial es) e) = step (run initial es) e)"
proof -
  from steady_run [OF steady_initial assms]
  have inv: "sound (atoms (run initial es)) (bonds (run initial es))
           \<and> settled (atoms (run initial es)) (bonds (run initial es))" .
  have 0: "scanned_run initial es = run initial es"
    by (rule scanned_run_eq [OF steady_initial assms])
  from inv have 1: "checkMolecules (run initial es) = run initial es"
    by (intro checkMolecules_fixed) (simp_all add: sound_def)
  note u = steady_undo [OF inv]
  then have 2: "checkMolecules (undo (run initial es)) = undo (run initial es)"
    by (intro checkMolecules_fixed) (simp_all add: sound_def)
  have 3: "checkMolecules (step (run initial es) e) = step (run initial es) e"
    if "admissible_event (run initial es) e"
    using steady_step [OF inv that] by (intro checkMolecules_fixed) (simp_all add: sound_def)
  from 0 1 2 3 inv u show ?thesis
    by blast
qed

theorem scan_after_every_operation_witness:
  "admissible initial (two_hydrogens @ [PointerDown 70 20, Tick (frame 4016 ''b1''), Undo])
   \<and> atoms (createBond ''b1'' 0 1 (beforeBond (frame 4016 ''b1'') hh_held))
       = [placed ''h1'' Atom_H 70 20 1 True (3/20), placed ''h2'' Atom_H 130 20 1 False (1/10)]
   \<and> run initial (two_hydrogens @ [PointerDown 70 20, Tick (frame 4016 ''b1'')]) = hh_done
   \<and> atoms hh_done = [] \<and> emitted hh_done = [ScoreUpdate 200, IdentifyMolecule [(Atom_H, 2)]]
   \<and> scanned_run initial (two_hydrogens @ [PointerDown 70 20, Tick (frame 4016 ''b1''), Undo])
       = hh_done\<lparr>bondHistory := []\<rparr>
   \<and> admissible initial (two_oxygens @ [PointerDown 28 100, Tick (frame 4016 ''b1'')])
   \<and> bonds pair_bonded \<noteq> [] \<and> bonds (undo pair_bonded) = []
   \<and> checkMolecules (undo pair_bonded) = undo pair_bonded"
proof -
  note t = scan_after_every_operation [OF admissible_hydrogens, unfolded run_hydrogens]
  note o = scan_after_every_operation [OF admissible_first_bond, unfolded run_pair_bonded]
  have c: "atoms (createBond ''b1'' 0 1 (beforeBond (frame 4016 ''b1'') hh_held))
       = [placed ''h1'' Atom_H 70 20 1 True (3/20), placed ''h2'' Atom_H 130 20 1 False (1/10)]"
    by (simp add: eval_defs hh_defs)
  have r: "run initial (two_hydrogens @ [PointerDown 70 20, Tick (frame 4016 ''b1'')]) = hh_done"
    by (simp add: run_append run_two_hydrogens down_hh_loose update_hh_held)
  have d: "atoms hh_done = [] \<and> emitted hh_done = [ScoreUpdate 200, IdentifyMolecule [(Atom_H, 2)]]"
    by (simp add: hh_done_def)
  have u: "bonds pair_bonded \<noteq> [] \<and> bonds (undo pair_bonded) = []"
    by (subst undo.simps) (simp add: pair_bonded_def undoBond_def)
  from t o c r d u admissible_hydrogens admissible_first_bond show ?thesis
    by blast
qed

end
